theory Spec2Isabelle
  imports Complex_Main
begin

section \<open>Convergence diagnostics of \<^verbatim>\<open>pystan/_chains.pyx\<close>\<close>

text \<open>
  The module computes the effective sample size and the split potential scale reduction
  of one parameter from the draws of several chains. The embedding follows the Cython
  source function by function.

  Conventions of the embedding:
  \<^item> a C \<^verbatim>\<open>double\<close> is a \<open>real\<close>: arithmetic is exact, there is no rounding, no
    infinity and no NaN. What depends on the rounding of a sum or on the order of its
    summands is outside the embedding;
  \<^item> a C \<^verbatim>\<open>unsigned int\<close> (\<^verbatim>\<open>uint\<close>) is a \<open>nat\<close> below \<open>2 ^ 32\<close>, with the
    wrap-around written out where the source subtracts or multiplies;
  \<^item> the module is compiled with Cython's default directives (no directive comment in
    the file), so a division of C numbers checks its divisor and raises
    \<^verbatim>\<open>ZeroDivisionError\<close>, and \<^verbatim>\<open>/\<close> on two C integers is integer division;
  \<^item> an exception raised inside one of the \<^verbatim>\<open>cdef\<close> helpers is a result \<open>Inl e\<close>
    of the helper, and the caller stops with it. This is the propagation of Cython 3;
    an older Cython prints and drops an exception of a \<^verbatim>\<open>cdef\<close> function that has no
    \<^verbatim>\<open>except\<close> clause, so that \<open>get_chain_mean\<close> returns 0 and \<open>get_kept_samples\<close>
    leaves its vector as it was. On a well-formed snapshot with at least one kept draw
    per chain the helpers do not raise and the two readings agree;
  \<^item> a read of a C++ vector beyond its size is undefined in the source; the model
    stops there with \<open>OutOfRange\<close>.
\<close>

subsection \<open>Errors\<close>

datatype error =
    IndexError          \<comment> \<open>Python list index out of range\<close>
  | KeyError            \<comment> \<open>Python dict lookup of a missing key\<close>
  | ValueError          \<comment> \<open>\<^verbatim>\<open>min\<close> of an empty sequence\<close>
  | OverflowError       \<comment> \<open>Python int that does not fit an \<^verbatim>\<open>unsigned int\<close>\<close>
  | ZeroDivisionError   \<comment> \<open>checked division, divisor zero\<close>
  | DomainError         \<comment> \<open>the statistics library called on an empty vector\<close>
  | OutOfRange          \<comment> \<open>C++ vector read beyond its size\<close>

definition ebind :: "error + 'a \<Rightarrow> ('a \<Rightarrow> error + 'b) \<Rightarrow> error + 'b" where
  "ebind m f = (case m of Inl e \<Rightarrow> Inl e | Inr x \<Rightarrow> f x)"

definition cdiv :: "real \<Rightarrow> real \<Rightarrow> error + real" where
  \<comment> \<open>\<^verbatim>\<open>a / b\<close> on C doubles under \<^verbatim>\<open>cdivision=False\<close>\<close>
  "cdiv a b = (if b = 0 then Inl ZeroDivisionError else Inr (a / b))"

definition to_uint :: "int \<Rightarrow> error + nat" where
  \<comment> \<open>coercion of a Python int to \<^verbatim>\<open>unsigned int\<close>\<close>
  "to_uint x = (if 0 \<le> x \<and> x < 2 ^ 32 then Inr (nat x) else Inl OverflowError)"

fun to_uint_vector :: "int list \<Rightarrow> error + nat list" where
  \<comment> \<open>coercion of a Python list to \<^verbatim>\<open>vector[uint]\<close>, element by element\<close>
  "to_uint_vector [] = Inr []"
| "to_uint_vector (x # xs) =
     ebind (to_uint x) (\<lambda>u. ebind (to_uint_vector xs) (\<lambda>us. Inr (u # us)))"

definition vec_get :: "'a list \<Rightarrow> nat \<Rightarrow> error + 'a" where
  \<comment> \<open>\<^verbatim>\<open>v[i]\<close> on a C++ vector\<close>
  "vec_get v i = (if i < length v then Inr (v ! i) else Inl OutOfRange)"

subsection \<open>The simulation snapshot\<close>

text \<open>
  \<^verbatim>\<open>sim\<close> is a Python dict. The fields the module reads are \<^verbatim>\<open>sim['chains']\<close>,
  \<^verbatim>\<open>sim['n_save']\<close>, \<^verbatim>\<open>sim['warmup2']\<close> and \<^verbatim>\<open>sim['samples']\<close>; entry \<open>k\<close> of the last is
  a dict whose \<^verbatim>\<open>'chains'\<close> entry is an ordered dict from parameter names to draws, here
  an association list in insertion order. The counts are natural numbers. The four
  fields are always present in the record, so the \<^verbatim>\<open>KeyError\<close> of a snapshot without
  one of them is outside the model.
\<close>

type_synonym chain_dict = "(string \<times> real list) list"

record sim =
  chains :: nat
  n_save :: "nat list"
  warmup2 :: "nat list"
  samples :: "chain_dict list"

subsection \<open>The external statistics library\<close>

text \<open>
  Modelled from the spec: \<^verbatim>\<open>stan::math::sum\<close>, the sum of a sequence of floats
  (section 6, statistical primitives). The C++ header is not part of the repository.
\<close>

definition sum_vec :: "real list \<Rightarrow> real" where
  "sum_vec x = sum_list x"

text \<open>
  Modelled from the spec: \<^verbatim>\<open>stan::math::mean\<close>, the arithmetic mean, defined for
  length at least 1 and failing on a length-0 input (section 6).
\<close>

definition mean :: "real list \<Rightarrow> error + real" where
  "mean x = (if x = [] then Inl DomainError else Inr (sum_list x / real (length x)))"

text \<open>
  Modelled from the spec: \<^verbatim>\<open>stan::math::variance\<close>, the sample variance with
  denominator length - 1, failing on a length-0 input (section 6). On one element, where
  the sum of squared deviations and the denominator are both zero, the value is 0, as
  the library returns it.
\<close>

definition variance :: "real list \<Rightarrow> error + real" where
  "variance x =
     (if x = [] then Inl DomainError
      else if length x = 1 then Inr 0
      else let mu = sum_list x / real (length x)
           in Inr (sum_list (map (\<lambda>v. (v - mu) ^ 2) x) / real (length x - 1)))"

text \<open>
  Modelled from the spec: \<^verbatim>\<open>stan::prob::autocovariance\<close>, the biased sample
  autocovariance of a sequence of length \<open>L\<close> at the lags \<open>0..L-1\<close>, with denominator
  \<open>L\<close>, so that entry 0 is the population variance (sections 4.2 and 6).
\<close>

definition stan_autocovariance :: "real list \<Rightarrow> real list" where
  "stan_autocovariance y =
     (let L = length y; mu = sum_list y / real L
      in map (\<lambda>t. sum_list (map (\<lambda>i. (y ! i - mu) * (y ! (i + t) - mu)) [0..<L - t]) / real L)
           [0..<L])"

subsection \<open>Extraction of the kept samples\<close>

definition lookup_param :: "sim \<Rightarrow> nat \<Rightarrow> nat \<Rightarrow> error + real list" where
  \<comment> \<open>lines 20-22 and 44-46: \<^verbatim>\<open>slst[param_names[n]]\<close> for chain \<open>k\<close>, copied into a vector\<close>
  "lookup_param sim k n =
     (if length (samples sim) \<le> k then Inl IndexError
      else let slst = samples sim ! k; param_names = map fst slst
           in if length param_names \<le> n then Inl IndexError
              else (case map_of slst (param_names ! n) of
                      None \<Rightarrow> Inl KeyError
                    | Some nv \<Rightarrow> Inr nv))"

definition get_chain_mean :: "sim \<Rightarrow> nat \<Rightarrow> nat \<Rightarrow> error + real" where
  \<comment> \<open>lines 16-26; \<open>w + i\<close> is below \<open>nv.size()\<close> for every \<open>i\<close> of the range\<close>
  "get_chain_mean sim k n =
     ebind (lookup_param sim k n) (\<lambda>nv.
       if length (warmup2 sim) \<le> k then Inl IndexError
       else let w = warmup2 sim ! k;
                d = int (length nv) - int w;
                acc = fold (\<lambda>i acc. acc + nv ! (w + i)) [0..<nat d] 0
            in if d = 0 then Inl ZeroDivisionError else Inr (acc / real_of_int d))"

definition get_kept_samples :: "sim \<Rightarrow> nat \<Rightarrow> nat \<Rightarrow> real list \<Rightarrow> error + real list" where
  \<comment> \<open>lines 29-51; \<open>out\<close> is the vector \<^verbatim>\<open>samples\<close> passed by reference as the caller
      holds it, the result its content on return (it is cleared first)\<close>
  "get_kept_samples sim k n out =
     ebind (lookup_param sim k n) (\<lambda>nv.
       if length (warmup2 sim) \<le> k then Inl IndexError
       else let w = warmup2 sim ! k;
                d = int (length nv) - int w
            in Inr (fold (\<lambda>i out. out @ [nv ! (w + i)]) [0..<nat d] []))"

definition autocovariance :: "sim \<Rightarrow> nat \<Rightarrow> nat \<Rightarrow> error + real list" where
  \<comment> \<open>lines 54-80\<close>
  "autocovariance sim k n =
     ebind (get_kept_samples sim k n []) (\<lambda>kept. Inr (stan_autocovariance kept))"

subsection \<open>The counts read by both diagnostics\<close>

definition py_min :: "nat list \<Rightarrow> error + nat" where
  \<comment> \<open>\<^verbatim>\<open>min(ns_kept)\<close>\<close>
  "py_min xs = (if xs = [] then Inl ValueError else Inr (Min (set xs)))"

definition read_counts :: "sim \<Rightarrow> error + (nat \<times> nat list \<times> nat)" where
  \<comment> \<open>lines 105-113 and 175-183: the chain count, \<^verbatim>\<open>ns_kept\<close> and \<^verbatim>\<open>min(ns_kept)\<close>\<close>
  "read_counts sim =
     ebind (to_uint (int (chains sim))) (\<lambda>m.
     ebind (to_uint_vector (map int (n_save sim))) (\<lambda>ns_save.
     ebind (to_uint_vector (map int (warmup2 sim))) (\<lambda>ns_warmup2.
     ebind (to_uint_vector (map (\<lambda>(s, w). int s - int w) (zip (n_save sim) (warmup2 sim))))
       (\<lambda>ns_kept.
     ebind (py_min ns_kept) (\<lambda>n_samples. Inr (m, ns_kept, n_samples))))))"

definition usub :: "nat \<Rightarrow> nat \<Rightarrow> nat" where
  \<comment> \<open>subtraction of \<^verbatim>\<open>unsigned int\<close>, which wraps\<close>
  "usub a b = nat ((int a - int b) mod 2 ^ 32)"

definition umul :: "nat \<Rightarrow> nat \<Rightarrow> nat" where
  \<comment> \<open>multiplication of \<^verbatim>\<open>unsigned int\<close>, which wraps\<close>
  "umul a b = nat ((int a * int b) mod 2 ^ 32)"

subsection \<open>Effective sample size\<close>

fun acov_loop :: "sim \<Rightarrow> nat \<Rightarrow> nat list \<Rightarrow> real list list \<Rightarrow> error + real list list" where
  \<comment> \<open>lines 117-119, over the chains still to visit\<close>
  "acov_loop sim n [] acov = Inr acov"
| "acov_loop sim n (chain # cs) acov =
     ebind (autocovariance sim chain n) (\<lambda>acov_chain.
       acov_loop sim n cs (acov @ [acov_chain]))"

fun chain_loop ::
  "sim \<Rightarrow> nat \<Rightarrow> nat list \<Rightarrow> real list list \<Rightarrow> nat list \<Rightarrow> real list \<times> real list
     \<Rightarrow> error + (real list \<times> real list)" where
  \<comment> \<open>lines 124-127; the pair is \<^verbatim>\<open>(chain_mean, chain_var)\<close>\<close>
  "chain_loop sim n ns_kept acov [] cmv = Inr cmv"
| "chain_loop sim n ns_kept acov (chain # cs) (chain_mean, chain_var) =
     ebind (vec_get ns_kept chain) (\<lambda>n_kept_samples.
     ebind (get_chain_mean sim chain n) (\<lambda>cm.
     ebind (vec_get acov chain) (\<lambda>acov_chain.
     ebind (vec_get acov_chain 0) (\<lambda>a0.
     ebind (cdiv (a0 * real n_kept_samples) (real (usub n_kept_samples 1))) (\<lambda>cv.
       chain_loop sim n ns_kept acov cs (chain_mean @ [cm], chain_var @ [cv]))))))"

fun lag_column :: "real list list \<Rightarrow> nat \<Rightarrow> nat list \<Rightarrow> real list \<Rightarrow> error + real list" where
  \<comment> \<open>lines 141-142: \<^verbatim>\<open>acov_t[chain] = acov[chain][t]\<close> for the chains still to visit\<close>
  "lag_column acov t [] acov_t = Inr acov_t"
| "lag_column acov t (chain # cs) acov_t =
     ebind (vec_get acov chain) (\<lambda>acov_chain.
     ebind (vec_get acov_chain t) (\<lambda>a.
       lag_column acov t cs (acov_t[chain := a])))"

function rho_loop ::
  "nat \<Rightarrow> nat \<Rightarrow> real list list \<Rightarrow> real \<Rightarrow> real \<Rightarrow> nat \<Rightarrow> real \<Rightarrow> real list
     \<Rightarrow> error + real list" where
  \<comment> \<open>lines 139-146; the state is \<^verbatim>\<open>(t, rho_hat, rho_hat_t)\<close>\<close>
  "rho_loop m n_samples acov mean_var var_plus t rho_hat rho_hat_t =
     (if t < n_samples \<and> rho_hat \<ge> 0 then
        ebind (lag_column acov t [0..<m] (replicate m 0)) (\<lambda>acov_t.
        ebind (mean acov_t) (\<lambda>mu.
        ebind (cdiv (mean_var - mu) var_plus) (\<lambda>q.
          rho_loop m n_samples acov mean_var var_plus (t + 1) (1 - q)
            (if 1 - q \<ge> 0 then rho_hat_t @ [1 - q] else rho_hat_t))))
      else Inr rho_hat_t)"
  by pat_completeness auto
termination
  by (relation "measure (\<lambda>(m, n_samples, acov, mean_var, var_plus, t, rho_hat, rho_hat_t).
        n_samples - t)") auto

definition pool_variances ::
  "sim \<Rightarrow> nat \<Rightarrow> nat \<Rightarrow> nat list \<Rightarrow> nat \<Rightarrow> real list list
     \<Rightarrow> error + (nat \<times> nat \<times> real list list \<times> real \<times> real)" where
  \<comment> \<open>lines 121-133: \<^verbatim>\<open>(m, n_samples, acov, mean_var, var_plus)\<close>\<close>
  "pool_variances sim n m ns_kept n_samples acov =
     ebind (chain_loop sim n ns_kept acov [0..<m] ([], [])) (\<lambda>(chain_mean, chain_var).
     ebind (mean chain_var) (\<lambda>mean_var.
     ebind (cdiv (mean_var * real (usub n_samples 1)) (real n_samples)) (\<lambda>var_plus.
     ebind (if m > 1 then ebind (variance chain_mean) (\<lambda>v. Inr (var_plus + v))
            else Inr var_plus) (\<lambda>var_plus.
       Inr (m, n_samples, acov, mean_var, var_plus)))))"

definition ess_variances ::
  "sim \<Rightarrow> nat \<Rightarrow> error + (nat \<times> nat \<times> real list list \<times> real \<times> real)" where
  \<comment> \<open>lines 104-133\<close>
  "ess_variances sim n =
     ebind (read_counts sim) (\<lambda>(m, ns_kept, n_samples).
     ebind (acov_loop sim n [0..<m] []) (\<lambda>acov.
       pool_variances sim n m ns_kept n_samples acov))"

definition ess_result ::
  "nat \<Rightarrow> nat \<Rightarrow> real list list \<Rightarrow> real \<Rightarrow> real \<Rightarrow> error + real" where
  \<comment> \<open>lines 135-152\<close>
  "ess_result m n_samples acov mean_var var_plus =
     ebind (rho_loop m n_samples acov mean_var var_plus 0 0 []) (\<lambda>rho_hat_t.
       let ess = real (umul m n_samples)
       in if length rho_hat_t > 0 then cdiv ess (1 + 2 * sum_vec rho_hat_t) else Inr ess)"

definition effective_sample_size :: "sim \<Rightarrow> nat \<Rightarrow> error + real" where
  \<comment> \<open>lines 82-152\<close>
  "effective_sample_size sim n =
     ebind (ess_variances sim n) (\<lambda>(m, n_samples, acov, mean_var, var_plus).
       ess_result m n_samples acov mean_var var_plus)"

subsection \<open>Split potential scale reduction\<close>

record split_state =
  split_chain_mean :: "real list"
  split_chain_var :: "real list"
  samples_vec :: "real list"      \<comment> \<open>the vector \<^verbatim>\<open>samples\<close>\<close>
  split_chain :: "real list"

fun push_back_range :: "real list \<Rightarrow> nat list \<Rightarrow> real list \<Rightarrow> error + real list" where
  \<comment> \<open>lines 196-197 and 202-203: \<^verbatim>\<open>split_chain.push_back(samples[i])\<close> for \<open>i\<close> of a range\<close>
  "push_back_range smp [] sc = Inr sc"
| "push_back_range smp (i # is) sc =
     ebind (vec_get smp i) (\<lambda>x. push_back_range smp is (sc @ [x]))"

definition split_halves :: "nat \<Rightarrow> real list \<Rightarrow> split_state \<Rightarrow> error + split_state" where
  \<comment> \<open>lines 195-205, with \<open>smp\<close> the content of \<^verbatim>\<open>samples\<close> after line 194; the vector
      \<^verbatim>\<open>split_chain\<close> is cleared at line 201 only\<close>
  "split_halves n_samples smp st =
     ebind (push_back_range smp [0..<n_samples div 2] (split_chain st)) (\<lambda>sc1.
     ebind (mean sc1) (\<lambda>m1.
     ebind (variance sc1) (\<lambda>v1.
     ebind (push_back_range smp [n_samples div 2..<n_samples] []) (\<lambda>sc2.
     ebind (mean sc2) (\<lambda>m2.
     ebind (variance sc2) (\<lambda>v2.
       Inr \<lparr>split_chain_mean = split_chain_mean st @ [m1, m2],
            split_chain_var = split_chain_var st @ [v1, v2],
            samples_vec = smp,
            split_chain = sc2\<rparr>))))))"

definition split_step :: "sim \<Rightarrow> nat \<Rightarrow> nat \<Rightarrow> nat \<Rightarrow> split_state \<Rightarrow> error + split_state" where
  \<comment> \<open>lines 194-205, the body of the loop over the chains\<close>
  "split_step sim n n_samples chain st =
     ebind (get_kept_samples sim chain n (samples_vec st)) (\<lambda>smp.
       split_halves n_samples smp st)"

fun split_loop :: "sim \<Rightarrow> nat \<Rightarrow> nat \<Rightarrow> nat list \<Rightarrow> split_state \<Rightarrow> error + split_state" where
  \<comment> \<open>lines 193-205, over the chains still to visit\<close>
  "split_loop sim n n_samples [] st = Inr st"
| "split_loop sim n n_samples (chain # cs) st =
     ebind (split_step sim n n_samples chain st) (\<lambda>st'. split_loop sim n n_samples cs st')"

definition split_state_init :: split_state where
  \<comment> \<open>lines 188-192: the four vectors are created empty\<close>
  "split_state_init =
     \<lparr>split_chain_mean = [], split_chain_var = [], samples_vec = [], split_chain = []\<rparr>"

definition split_n_samples :: "nat \<Rightarrow> nat" where
  \<comment> \<open>lines 185-186\<close>
  "split_n_samples n_samples = (if n_samples mod 2 = 1 then n_samples - 1 else n_samples)"

definition pool_halves :: "nat \<Rightarrow> split_state \<Rightarrow> error + (nat \<times> real \<times> real)" where
  \<comment> \<open>lines 207-208: \<^verbatim>\<open>(n_samples, var_between, var_within)\<close>\<close>
  "pool_halves n_samples st =
     ebind (variance (split_chain_mean st)) (\<lambda>v.
     ebind (mean (split_chain_var st)) (\<lambda>var_within.
       Inr (n_samples, real (n_samples div 2) * v, var_within)))"

definition split_variances :: "sim \<Rightarrow> nat \<Rightarrow> error + (nat \<times> real \<times> real)" where
  \<comment> \<open>lines 174-208\<close>
  "split_variances sim n =
     ebind (read_counts sim) (\<lambda>(n_chains, ns_kept, n_samples0).
       let n_samples = split_n_samples n_samples0
       in ebind (split_loop sim n n_samples [0..<n_chains] split_state_init) (\<lambda>st.
            pool_halves n_samples st))"

definition split_ratio_of :: "nat \<Rightarrow> real \<Rightarrow> real \<Rightarrow> error + real" where
  \<comment> \<open>line 210, the argument of the square root\<close>
  "split_ratio_of n_samples var_between var_within =
     ebind (cdiv var_between var_within) (\<lambda>q.
       cdiv (q + real (n_samples div 2) - 1) (real (n_samples div 2)))"

definition split_ratio :: "sim \<Rightarrow> nat \<Rightarrow> error + real" where
  \<comment> \<open>lines 155-210\<close>
  "split_ratio sim n =
     ebind (split_variances sim n) (\<lambda>(n_samples, var_between, var_within).
       split_ratio_of n_samples var_between var_within)"

definition split_potential_scale_reduction :: "sim \<Rightarrow> nat \<Rightarrow> error + real" where
  \<comment> \<open>lines 155-211; the argument of \<^verbatim>\<open>sqrt\<close> is never negative (\<open>split_ratio_nonneg\<close>
      below), so the NaN that C gives on a negative argument does not arise\<close>
  "split_potential_scale_reduction sim n = ebind (split_ratio sim n) (\<lambda>x. Inr (sqrt x))"

subsection \<open>Well-formed snapshots\<close>

definition valid_chain :: "nat \<Rightarrow> nat \<times> nat \<times> chain_dict \<Rightarrow> bool" where
  \<comment> \<open>section 3 of the specification, for one chain and parameter index \<open>n\<close>\<close>
  "valid_chain n = (\<lambda>(s, w, slst).
     w \<le> s \<and> int s < 2 ^ 32 \<and> n < length slst \<and> distinct (map fst slst)
     \<and> length (snd (slst ! n)) = s)"

definition valid_sim :: "sim \<Rightarrow> nat \<Rightarrow> bool" where
  "valid_sim sim n \<longleftrightarrow>
     1 \<le> chains sim \<and> int (chains sim) < 2 ^ 32
     \<and> length (n_save sim) = chains sim
     \<and> length (warmup2 sim) = chains sim
     \<and> length (samples sim) = chains sim
     \<and> list_all (valid_chain n) (zip (n_save sim) (zip (warmup2 sim) (samples sim)))"

definition kept :: "sim \<Rightarrow> nat \<Rightarrow> nat \<Rightarrow> real list" where
  \<comment> \<open>the kept-sample sequence of chain \<open>k\<close> (section 3): the draws after the warmup\<close>
  "kept sim n k = drop (warmup2 sim ! k) (snd (samples sim ! k ! n))"

definition kept_chains :: "sim \<Rightarrow> nat \<Rightarrow> real list list" where
  \<comment> \<open>the kept-sample sequences of all chains, in chain order\<close>
  "kept_chains sim n = map (kept sim n) [0..<chains sim]"

subsection \<open>The effective sample size as the specification states it\<close>

text \<open>
  The definitions of this subsection follow the words of section 4.3 of the
  specification, over the kept-sample sequences \<open>ys\<close> of the chains. They are compared
  with the functions above, which follow the source.
\<close>

definition spec_N :: "real list list \<Rightarrow> nat" where
  \<comment> \<open>step 1: \<open>N = min_k n_kept[k]\<close>\<close>
  "spec_N ys = Min (set (map length ys))"

definition spec_chain_mean :: "real list \<Rightarrow> real" where
  \<comment> \<open>step 2: the chain mean\<close>
  "spec_chain_mean y = sum_list y / real (length y)"

definition spec_chain_var :: "real list \<Rightarrow> real" where
  \<comment> \<open>step 3: \<open>chain_var[k] = acov[k][0] * n_kept[k] / (n_kept[k] - 1)\<close>\<close>
  "spec_chain_var y = stan_autocovariance y ! 0 * real (length y) / (real (length y) - 1)"

definition spec_mean_var :: "real list list \<Rightarrow> real" where
  \<comment> \<open>step 4: \<open>mean_var = mean_k(chain_var[k])\<close>\<close>
  "spec_mean_var ys = sum_list (map spec_chain_var ys) / real (length ys)"

definition spec_sample_variance :: "real list \<Rightarrow> real" where
  \<comment> \<open>the sample variance with denominator \<open>m - 1\<close>\<close>
  "spec_sample_variance xs =
     (let mu = sum_list xs / real (length xs)
      in sum_list (map (\<lambda>x. (x - mu) ^ 2) xs) / (real (length xs) - 1))"

definition spec_var_plus :: "real list list \<Rightarrow> real" where
  \<comment> \<open>step 5: \<open>var_plus = mean_var * (N - 1) / N\<close>, plus the between-chain variance of
      the chain means exactly when \<open>m > 1\<close>\<close>
  "spec_var_plus ys =
     spec_mean_var ys * (real (spec_N ys) - 1) / real (spec_N ys)
     + (if length ys > 1 then spec_sample_variance (map spec_chain_mean ys) else 0)"

definition spec_rho_hat :: "real list list \<Rightarrow> nat \<Rightarrow> real" where
  \<comment> \<open>step 6: \<open>rho_hat(t) = 1 - (mean_var - mean_k(acov[k][t])) / var_plus\<close>\<close>
  "spec_rho_hat ys t =
     1 - (spec_mean_var ys
          - sum_list (map (\<lambda>y. stan_autocovariance y ! t) ys) / real (length ys))
         / spec_var_plus ys"

definition spec_rho_hat_t :: "real list list \<Rightarrow> real list" where
  \<comment> \<open>step 7: the values \<open>rho_hat(0), rho_hat(1), ...\<close> before the first negative one,
      among the lags below \<open>N\<close>\<close>
  "spec_rho_hat_t ys = takeWhile (\<lambda>r. 0 \<le> r) (map (spec_rho_hat ys) [0..<spec_N ys])"

definition spec_ess :: "real list list \<Rightarrow> real" where
  \<comment> \<open>step 8: \<open>ess = m * N\<close>, divided by \<open>1 + 2 * sum(rho_hat_t)\<close> if any value was
      accumulated\<close>
  "spec_ess ys =
     (let rs = spec_rho_hat_t ys; mN = real (length ys) * real (spec_N ys)
      in if rs = [] then mN else mN / (1 + 2 * sum_list rs))"

definition rho_of :: "real list list \<Rightarrow> real \<Rightarrow> real \<Rightarrow> nat \<Rightarrow> real" where
  \<comment> \<open>line 143, the value of \<^verbatim>\<open>rho_hat\<close> computed at lag \<open>t\<close>\<close>
  "rho_of acov mean_var var_plus t =
     1 - (mean_var - sum_list (map (\<lambda>a. a ! t) acov) / real (length acov)) / var_plus"

subsection \<open>Snapshots derived from a snapshot\<close>


definition permute_chains :: "nat list \<Rightarrow> sim \<Rightarrow> sim" where
  \<comment> \<open>the snapshot whose chain \<open>k\<close> is chain \<open>p ! k\<close> of \<open>sim\<close>\<close>
  "permute_chains p sim =
     sim\<lparr>n_save := map ((!) (n_save sim)) p,
         warmup2 := map ((!) (warmup2 sim)) p,
         samples := map ((!) (samples sim)) p\<rparr>"


subsection \<open>Example snapshots\<close>

definition sim_two_chains :: sim where
  \<comment> \<open>two chains of five draws, two of them warmup\<close>
  "sim_two_chains =
     \<lparr>chains = 2, n_save = [5, 5], warmup2 = [2, 2],
      samples = [[(''alpha'', [9, 8, 1, 2, 4]), (''beta'', [0, 0, 3, 1, 2])],
                 [(''alpha'', [7, 7, 5, 3, 4]), (''beta'', [1, 1, 2, 2, 6])]]\<rparr>"

definition sim_constant :: sim where
  \<comment> \<open>one chain whose four kept draws are equal\<close>
  "sim_constant = \<lparr>chains = 1, n_save = [6], warmup2 = [2],
      samples = [[(''alpha'', [0, 1, 2, 2, 2, 2])]]\<rparr>"

definition sim_one_chain :: sim where
  \<comment> \<open>one chain of three kept draws\<close>
  "sim_one_chain =
     \<lparr>chains = 1, n_save = [3], warmup2 = [0], samples = [[(''alpha'', [1, 2, 3])]]\<rparr>"

definition sim_split :: sim where
  \<comment> \<open>two chains of four kept draws\<close>
  "sim_split = \<lparr>chains = 2, n_save = [4, 4], warmup2 = [0, 0],
      samples = [[(''alpha'', [1, 2, 3, 4])], [(''alpha'', [5, 6, 7, 8])]]\<rparr>"


definition sim_one_kept :: sim where
  \<comment> \<open>two chains, the second with one kept draw\<close>
  "sim_one_kept = \<lparr>chains = 2, n_save = [3, 2], warmup2 = [1, 1],
      samples = [[(''alpha'', [0, 1, 2])], [(''alpha'', [0, 5])]]\<rparr>"


subsection \<open>The snapshot in memory\<close>

text \<open>
  \<^verbatim>\<open>sim\<close> is passed by reference, and \<open>get_kept_samples\<close> fills a vector that it receives
  by reference. To state what the module writes, the sequences that one of its functions
  reaches through a reference live in a store: the draw lists of the snapshot and the
  vectors \<^verbatim>\<open>samples\<close> of lines 76 and 191. Every other vector is private to one function
  body and stays a value. The functions of this subsection are the functions above with
  the store passed along: they return the result (or the exception) and the store as the
  call leaves it.
\<close>

type_synonym addr = nat

record heap =
  cells :: "addr \<Rightarrow> real list option"   \<comment> \<open>the sequences of floats in memory\<close>
  next_free :: addr                       \<comment> \<open>no address from here on is in use\<close>

record sim_refs =                        \<comment> \<open>\<^verbatim>\<open>sim\<close> as the interpreter holds it\<close>
  ref_chains :: nat
  ref_n_save :: "nat list"
  ref_warmup2 :: "nat list"
  ref_samples :: "(string \<times> addr) list list"   \<comment> \<open>each draw sequence is a reference\<close>

definition deref :: "heap \<Rightarrow> addr \<Rightarrow> real list" where
  \<comment> \<open>the sequence at an address\<close>
  "deref h a = (case cells h a of None \<Rightarrow> [] | Some v \<Rightarrow> v)"

definition snapshot_of :: "heap \<Rightarrow> sim_refs \<Rightarrow> sim" where
  \<comment> \<open>the content of the snapshot: every reference replaced by the sequence it points to\<close>
  "snapshot_of h r =
     \<lparr>chains = ref_chains r, n_save = ref_n_save r, warmup2 = ref_warmup2 r,
      samples = map (map (\<lambda>(name, a). (name, deref h a))) (ref_samples r)\<rparr>"

definition draw_addrs :: "sim_refs \<Rightarrow> addr list" where
  \<comment> \<open>the addresses of the draw sequences of the snapshot\<close>
  "draw_addrs r = concat (map (map snd) (ref_samples r))"

definition heap_ok :: "heap \<Rightarrow> sim_refs \<Rightarrow> bool" where
  \<comment> \<open>the draw sequences of the snapshot lie at addresses in use\<close>
  "heap_ok h r \<longleftrightarrow> list_all (\<lambda>a. a < next_free h) (draw_addrs r)"

definition alloc :: "heap \<Rightarrow> addr \<times> heap" where
  \<comment> \<open>\<^verbatim>\<open>new vector[double]()\<close>: an empty vector at an unused address\<close>
  "alloc h = (next_free h,
              h\<lparr>cells := (cells h)(next_free h \<mapsto> []), next_free := Suc (next_free h)\<rparr>)"

definition store :: "addr \<Rightarrow> real list \<Rightarrow> heap \<Rightarrow> heap" where
  \<comment> \<open>overwriting the vector at an address\<close>
  "store a v h = h\<lparr>cells := (cells h)(a \<mapsto> v)\<rparr>"

definition hbind ::
  "(heap \<Rightarrow> (error + 'a) \<times> heap) \<Rightarrow> ('a \<Rightarrow> heap \<Rightarrow> (error + 'b) \<times> heap)
     \<Rightarrow> heap \<Rightarrow> (error + 'b) \<times> heap" where
  \<comment> \<open>sequencing: an exception stops the computation and keeps the memory as it is then\<close>
  "hbind m f h = (case m h of (Inl e, h') \<Rightarrow> (Inl e, h') | (Inr x, h') \<Rightarrow> f x h')"

definition get_kept_samples_h ::
  "sim_refs \<Rightarrow> nat \<Rightarrow> nat \<Rightarrow> addr \<Rightarrow> heap \<Rightarrow> (error + unit) \<times> heap" where
  \<comment> \<open>lines 29-51: the draws are read from the snapshot (line 46 copies them into
      \<^verbatim>\<open>nv\<close>), the vector at \<open>out\<close> is overwritten (lines 49-51); the lookups that can raise
      come before the first write\<close>
  "get_kept_samples_h r k n out h =
     (case get_kept_samples (snapshot_of h r) k n (deref h out) of
        Inl e \<Rightarrow> (Inl e, h)
      | Inr v \<Rightarrow> (Inr (), store out v h))"

definition autocovariance_h ::
  "sim_refs \<Rightarrow> nat \<Rightarrow> nat \<Rightarrow> heap \<Rightarrow> (error + real list) \<times> heap" where
  \<comment> \<open>lines 76-80: \<^verbatim>\<open>samples\<close> is a new vector, filled by \<open>get_kept_samples\<close>\<close>
  "autocovariance_h r k n h =
     (case alloc h of (a, h1) \<Rightarrow>
        hbind (get_kept_samples_h r k n a) (\<lambda>_ h2. (Inr (stan_autocovariance (deref h2 a)), h2)) h1)"

fun acov_loop_h ::
  "sim_refs \<Rightarrow> nat \<Rightarrow> nat list \<Rightarrow> real list list \<Rightarrow> heap
     \<Rightarrow> (error + real list list) \<times> heap" where
  \<comment> \<open>lines 117-119\<close>
  "acov_loop_h r n [] acov h = (Inr acov, h)"
| "acov_loop_h r n (chain # cs) acov h =
     hbind (autocovariance_h r chain n) (\<lambda>acov_chain. acov_loop_h r n cs (acov @ [acov_chain])) h"

definition ess_variances_h ::
  "sim_refs \<Rightarrow> nat \<Rightarrow> heap
     \<Rightarrow> (error + (nat \<times> nat \<times> real list list \<times> real \<times> real)) \<times> heap" where
  \<comment> \<open>lines 104-133\<close>
  "ess_variances_h r n h =
     (case read_counts (snapshot_of h r) of
        Inl e \<Rightarrow> (Inl e, h)
      | Inr (m, ns_kept, n_samples) \<Rightarrow>
          hbind (acov_loop_h r n [0..<m] []) (\<lambda>acov h1.
            (pool_variances (snapshot_of h1 r) n m ns_kept n_samples acov, h1)) h)"

definition effective_sample_size_h :: "sim_refs \<Rightarrow> nat \<Rightarrow> heap \<Rightarrow> (error + real) \<times> heap" where
  \<comment> \<open>lines 82-152\<close>
  "effective_sample_size_h r n h =
     hbind (ess_variances_h r n) (\<lambda>(m, n_samples, acov, mean_var, var_plus) h1.
       (ess_result m n_samples acov mean_var var_plus, h1)) h"

definition split_step_h ::
  "sim_refs \<Rightarrow> nat \<Rightarrow> nat \<Rightarrow> addr \<Rightarrow> nat \<Rightarrow> split_state \<Rightarrow> heap
     \<Rightarrow> (error + split_state) \<times> heap" where
  \<comment> \<open>lines 194-205, with \<open>a\<close> the address of the vector \<^verbatim>\<open>samples\<close>\<close>
  "split_step_h r n n_samples a chain st h =
     hbind (get_kept_samples_h r chain n a) (\<lambda>_ h1.
       (split_halves n_samples (deref h1 a) st, h1)) h"

fun split_loop_h ::
  "sim_refs \<Rightarrow> nat \<Rightarrow> nat \<Rightarrow> addr \<Rightarrow> nat list \<Rightarrow> split_state \<Rightarrow> heap
     \<Rightarrow> (error + split_state) \<times> heap" where
  \<comment> \<open>lines 193-205\<close>
  "split_loop_h r n n_samples a [] st h = (Inr st, h)"
| "split_loop_h r n n_samples a (chain # cs) st h =
     hbind (split_step_h r n n_samples a chain st)
       (\<lambda>st'. split_loop_h r n n_samples a cs st') h"

definition split_variances_h ::
  "sim_refs \<Rightarrow> nat \<Rightarrow> heap \<Rightarrow> (error + (nat \<times> real \<times> real)) \<times> heap" where
  \<comment> \<open>lines 174-208; \<^verbatim>\<open>samples\<close> is a new vector (line 191)\<close>
  "split_variances_h r n h =
     (case read_counts (snapshot_of h r) of
        Inl e \<Rightarrow> (Inl e, h)
      | Inr (n_chains, ns_kept, n_samples0) \<Rightarrow>
          (let n_samples = split_n_samples n_samples0
           in case alloc h of (a, h0) \<Rightarrow>
                hbind (split_loop_h r n n_samples a [0..<n_chains] split_state_init)
                  (\<lambda>st h1. (pool_halves n_samples st, h1)) h0))"

definition split_potential_scale_reduction_h ::
  "sim_refs \<Rightarrow> nat \<Rightarrow> heap \<Rightarrow> (error + real) \<times> heap" where
  \<comment> \<open>lines 155-211\<close>
  "split_potential_scale_reduction_h r n h =
     hbind (split_variances_h r n) (\<lambda>(n_samples, var_between, var_within) h1.
       (ebind (split_ratio_of n_samples var_between var_within) (\<lambda>x. Inr (sqrt x)), h1)) h"

definition frame :: "sim_refs \<Rightarrow> heap \<Rightarrow> heap \<Rightarrow> bool" where
  \<comment> \<open>from \<open>h\<close> to \<open>h'\<close> no draw sequence of the snapshot was written and no address was
      given back\<close>
  "frame r h h' \<longleftrightarrow>
     (\<forall>a\<in>set (draw_addrs r). cells h' a = cells h a) \<and> next_free h \<le> next_free h'"

definition refs_two_chains :: sim_refs where
  \<comment> \<open>\<open>sim_two_chains\<close> with its parameter \<^verbatim>\<open>alpha\<close>, the two draw lists at addresses 0 and 1\<close>
  "refs_two_chains =
     \<lparr>ref_chains = 2, ref_n_save = [5, 5], ref_warmup2 = [2, 2],
      ref_samples = [[(''alpha'', 0)], [(''alpha'', 1)]]\<rparr>"

definition heap_two_chains :: heap where
  \<comment> \<open>the two draw lists and, at address 2, a vector of the caller\<close>
  "heap_two_chains =
     \<lparr>cells = [0 \<mapsto> [9, 8, 1, 2, 4], 1 \<mapsto> [7, 7, 5, 3, 4], 2 \<mapsto> [0, 0]], next_free = 3\<rparr>"

section \<open>Properties\<close>

subsection \<open>The two extraction paths\<close>

lemma fold_push_back: "fold (\<lambda>i out. out @ [f i]) js acc = acc @ map f js"
  by (induction js arbitrary: acc) simp_all

lemma fold_add: "fold (\<lambda>i acc. acc + f i) js (a::real) = a + sum_list (map f js)"
  by (induction js arbitrary: a) simp_all

lemma map_nth_drop: "map (\<lambda>i. nv ! (w + i)) [0..<length nv - w] = drop w nv"
  by (rule nth_equalityI) simp_all

lemma get_kept_samples_drop:
  assumes "lookup_param sim k n = Inr nv" and "k < length (warmup2 sim)"
  shows "get_kept_samples sim k n out = Inr (drop (warmup2 sim ! k) nv)"
  using assms
  by (simp add: get_kept_samples_def ebind_def fold_push_back nat_diff_distrib' map_nth_drop
      flip: of_nat_diff)

lemma get_chain_mean_drop:
  assumes "lookup_param sim k n = Inr nv" and "k < length (warmup2 sim)"
    and "warmup2 sim ! k < length nv"
  shows "get_chain_mean sim k n =
    Inr (sum_list (drop (warmup2 sim ! k) nv) / real (length nv - warmup2 sim ! k))"
  using assms
  by (simp add: get_chain_mean_def ebind_def fold_add Let_def map_nth_drop nat_diff_distrib')

text \<open>
  Claim C10. For a chain \<open>k\<close> and a parameter \<open>n\<close> whose draw sequence \<open>nv\<close> has the
  \<open>n_save[k]\<close> entries of the snapshot, with \<open>n_save[k] - warmup2[k] \<ge> 1\<close>, the summation
  loop of \<open>get_chain_mean\<close> returns the arithmetic mean of the sequence that
  \<open>get_kept_samples\<close> builds (whatever the vector held before), and both succeed.
\<close>

theorem get_chain_mean_agrees:
  assumes "lookup_param sim k n = Inr nv" and "k < length (warmup2 sim)"
    and "length nv = n_save sim ! k"
    and "1 \<le> int (n_save sim ! k) - int (warmup2 sim ! k)"
  shows "get_kept_samples sim k n out = Inr (drop (warmup2 sim ! k) nv)
    \<and> get_chain_mean sim k n = mean (drop (warmup2 sim ! k) nv)
    \<and> mean (drop (warmup2 sim ! k) nv)
        = Inr (sum_list (drop (warmup2 sim ! k) nv) / real (length (drop (warmup2 sim ! k) nv)))"
proof -
  have w: "warmup2 sim ! k < length nv"
    using assms(3,4) by simp
  have "mean (drop (warmup2 sim ! k) nv) =
      Inr (sum_list (drop (warmup2 sim ! k) nv) / real (length nv - warmup2 sim ! k))"
    using w by (simp add: mean_def)
  then show ?thesis
    using get_chain_mean_drop [OF assms(1,2) w] get_kept_samples_drop [OF assms(1,2)]
    by simp
qed

theorem get_chain_mean_agrees_witness:
  "lookup_param sim_two_chains 1 0 = Inr [7, 7, 5, 3, 4]
   \<and> 1 < length (warmup2 sim_two_chains)
   \<and> length [7, 7, 5, 3, 4 :: real] = n_save sim_two_chains ! 1
   \<and> 1 \<le> int (n_save sim_two_chains ! 1) - int (warmup2 sim_two_chains ! 1)
   \<and> get_kept_samples sim_two_chains 1 0 [0, 0] = Inr [5, 3, 4]
   \<and> get_chain_mean sim_two_chains 1 0 = mean [5, 3, 4]
   \<and> mean [5, 3, 4] = Inr 4"
proof -
  have h1: "lookup_param sim_two_chains 1 0 = Inr [7, 7, 5, 3, 4]"
    by (simp add: lookup_param_def sim_two_chains_def)
  have h2: "1 < length (warmup2 sim_two_chains)"
    by (simp add: sim_two_chains_def)
  have h3: "length [7, 7, 5, 3, 4 :: real] = n_save sim_two_chains ! 1"
    by (simp add: sim_two_chains_def)
  have h4: "1 \<le> int (n_save sim_two_chains ! 1) - int (warmup2 sim_two_chains ! 1)"
    by (simp add: sim_two_chains_def)
  have d: "drop (warmup2 sim_two_chains ! 1) [7, 7, 5, 3, 4 :: real] = [5, 3, 4]"
    by (simp add: sim_two_chains_def)
  have m: "mean [5, 3, 4] = Inr 4"
    by (simp add: mean_def)
  show ?thesis
    using h1 h2 h3 h4 get_chain_mean_agrees [OF h1 h2 h3 h4, of "[0, 0]"]
    unfolding d m by blast
qed

subsection \<open>Well-formed snapshots: what the helpers return\<close>

lemma valid_simD:
  assumes "valid_sim sim n" and "k < chains sim"
  shows "valid_chain n (n_save sim ! k, warmup2 sim ! k, samples sim ! k)"
  using assms by (simp add: valid_sim_def list_all_length)

lemma valid_sim_lengths:
  assumes "valid_sim sim n"
  shows "length (n_save sim) = chains sim" "length (warmup2 sim) = chains sim"
    "length (samples sim) = chains sim" "1 \<le> chains sim" "int (chains sim) < 2 ^ 32"
  using assms by (simp_all add: valid_sim_def)

lemma lookup_param_valid:
  assumes "valid_sim sim n" and "k < chains sim"
  shows "lookup_param sim k n = Inr (snd (samples sim ! k ! n))"
proof -
  let ?slst = "samples sim ! k"
  have v: "n < length ?slst" "distinct (map fst ?slst)"
    using valid_simD [OF assms] by (simp_all add: valid_chain_def)
  have "(fst (?slst ! n), snd (?slst ! n)) \<in> set ?slst"
    using v(1) by simp
  then have "map_of ?slst (fst (?slst ! n)) = Some (snd (?slst ! n))"
    using v(2) by simp
  then show ?thesis
    using v(1) assms(2) valid_sim_lengths(3) [OF assms(1)]
    by (simp add: lookup_param_def Let_def)
qed

lemma get_kept_samples_valid:
  assumes "valid_sim sim n" and "k < chains sim"
  shows "get_kept_samples sim k n out = Inr (kept sim n k)"
  using get_kept_samples_drop [OF lookup_param_valid [OF assms]] assms(2)
    valid_sim_lengths(2) [OF assms(1)]
  by (simp add: kept_def)

lemma length_kept:
  assumes "valid_sim sim n" and "k < chains sim"
  shows "length (kept sim n k) = n_save sim ! k - warmup2 sim ! k"
  using valid_simD [OF assms] by (simp add: kept_def valid_chain_def)

lemma warmup_le_save:
  assumes "valid_sim sim n" and "k < chains sim"
  shows "warmup2 sim ! k \<le> n_save sim ! k" "int (n_save sim ! k) < 2 ^ 32"
  using valid_simD [OF assms] by (simp_all add: valid_chain_def)

lemma autocovariance_valid:
  assumes "valid_sim sim n" and "k < chains sim"
  shows "autocovariance sim k n = Inr (stan_autocovariance (kept sim n k))"
  by (simp add: autocovariance_def get_kept_samples_valid [OF assms] ebind_def)

lemma get_chain_mean_valid:
  assumes "valid_sim sim n" and "k < chains sim" and "kept sim n k \<noteq> []"
  shows "get_chain_mean sim k n = Inr (spec_chain_mean (kept sim n k))"
proof -
  let ?nv = "snd (samples sim ! k ! n)"
  have w: "warmup2 sim ! k < length ?nv"
    using assms(3) by (simp add: kept_def)
  show ?thesis
    using get_chain_mean_drop [OF lookup_param_valid [OF assms(1,2)] _ w] assms(2)
      valid_sim_lengths(2) [OF assms(1)]
    by (simp add: kept_def spec_chain_mean_def)
qed

lemma to_uint_vector_ok:
  assumes "\<forall>x\<in>set xs. 0 \<le> x \<and> x < 2 ^ 32"
  shows "to_uint_vector xs = Inr (map nat xs)"
  using assms by (induction xs) (simp_all add: to_uint_def ebind_def)

lemma length_kept_chains [simp]: "length (kept_chains sim n) = chains sim"
  by (simp add: kept_chains_def)

lemma nth_kept_chains: "k < chains sim \<Longrightarrow> kept_chains sim n ! k = kept sim n k"
  by (simp add: kept_chains_def)

lemma read_counts_valid:
  assumes "valid_sim sim n"
  shows "read_counts sim =
    Inr (chains sim, map length (kept_chains sim n), spec_N (kept_chains sim n))"
proof -
  note L = valid_sim_lengths [OF assms]
  have a: "to_uint_vector (map int (n_save sim)) = Inr (map nat (map int (n_save sim)))"
    using warmup_le_save(2) [OF assms] L(1)
    by (intro to_uint_vector_ok) (auto simp: in_set_conv_nth)
  have b: "to_uint_vector (map int (warmup2 sim)) = Inr (map nat (map int (warmup2 sim)))"
    using warmup_le_save [OF assms] L(2)
    by (intro to_uint_vector_ok) (fastforce simp: in_set_conv_nth)
  let ?d = "map (\<lambda>(s, w). int s - int w) (zip (n_save sim) (warmup2 sim))"
  have c: "to_uint_vector ?d = Inr (map nat ?d)"
    using warmup_le_save [OF assms] L(1,2)
    by (intro to_uint_vector_ok) (fastforce simp: in_set_conv_nth)
  have d: "map nat ?d = map length (kept_chains sim n)"
    using L(1,2) warmup_le_save(1) [OF assms]
    by (intro nth_equalityI) (simp_all add: nth_kept_chains length_kept [OF assms])
  have e: "map length (kept_chains sim n) \<noteq> []"
    using L(4) by (simp add: kept_chains_def)
  have c': "to_uint_vector ?d = Inr (map length (kept_chains sim n))"
    using c unfolding d .
  show ?thesis
    using L(5) e by (simp add: read_counts_def to_uint_def a b c' ebind_def py_min_def spec_N_def)
qed

subsection \<open>The variances of the effective sample size\<close>

lemma length_stan_autocovariance [simp]: "length (stan_autocovariance y) = length y"
  by (simp add: stan_autocovariance_def Let_def)

lemma acov_loop_valid:
  assumes "valid_sim sim n" and "\<forall>c\<in>set cs. c < chains sim"
  shows "acov_loop sim n cs acc = Inr (acc @ map (\<lambda>k. stan_autocovariance (kept sim n k)) cs)"
  using assms(2)
  by (induction cs arbitrary: acc) (simp_all add: autocovariance_valid [OF assms(1)] ebind_def)

lemma acov_loop_all:
  assumes "valid_sim sim n"
  shows "acov_loop sim n [0..<chains sim] [] = Inr (map stan_autocovariance (kept_chains sim n))"
  using acov_loop_valid [OF assms, of "[0..<chains sim]" "[]"]
  by (simp add: kept_chains_def comp_def)

lemma spec_N_le:
  assumes "k < length ys"
  shows "spec_N ys \<le> length (ys ! k)"
  unfolding spec_N_def using assms by (intro Min_le) simp_all

lemma usub_one':
  assumes "1 \<le> a" and "int a < 2 ^ 32"
  shows "usub a 1 = a - 1"
proof -
  have "(int a - 1) mod 2 ^ 32 = int a - 1"
    using assms by (intro mod_pos_pos_trivial) simp_all
  then show ?thesis
    using assms(1) by (simp add: usub_def nat_diff_distrib')
qed

lemma chain_loop_valid:
  assumes v: "valid_sim sim n"
    and cs: "\<forall>c\<in>set cs. c < chains sim \<and> 2 \<le> length (kept sim n c)"
  shows "chain_loop sim n (map length (kept_chains sim n))
           (map stan_autocovariance (kept_chains sim n)) cs (cm, cv)
         = Inr (cm @ map (\<lambda>k. spec_chain_mean (kept sim n k)) cs,
                cv @ map (\<lambda>k. spec_chain_var (kept sim n k)) cs)"
  using cs
proof (induction cs arbitrary: cm cv)
  case Nil
  then show ?case by simp
next
  case (Cons c cs)
  let ?y = "kept sim n c"
  have c: "c < chains sim" and len: "2 \<le> length ?y"
    using Cons.prems by simp_all
  have bound: "int (length ?y) < 2 ^ 32"
    using warmup_le_save(2) [OF v c] length_kept [OF v c] by simp
  have u: "usub (length ?y) 1 = length ?y - 1"
    using len bound by (intro usub_one') simp_all
  have ne: "?y \<noteq> []"
    using len by auto
  have r: "real (length ?y - 1) = real (length ?y) - 1"
    using len by (simp add: of_nat_diff)
  have step: "cdiv (stan_autocovariance ?y ! 0 * real (length ?y)) (real (usub (length ?y) 1))
      = Inr (spec_chain_var ?y)"
    unfolding u using len by (simp add: cdiv_def r spec_chain_var_def)
  have ane: "stan_autocovariance ?y \<noteq> []"
  proof
    assume "stan_autocovariance ?y = []"
    then have "length (stan_autocovariance ?y) = 0" by (simp only: list.size)
    then show False using len by simp
  qed
  show ?case
    using Cons.IH [of "cm @ [spec_chain_mean ?y]" "cv @ [spec_chain_var ?y]"] Cons.prems c len ane
    by (simp add: vec_get_def nth_kept_chains get_chain_mean_valid [OF v c ne] step ebind_def
        del: One_nat_def)
qed

lemma mean_map_nonempty:
  "xs \<noteq> [] \<Longrightarrow> mean (map f xs) = Inr (sum_list (map f xs) / real (length xs))"
  by (simp add: mean_def)

lemma variance_spec:
  assumes "2 \<le> length xs"
  shows "variance xs = Inr (spec_sample_variance xs)"
proof -
  have "xs \<noteq> []" "length xs \<noteq> 1" using assms by auto
  moreover have "real (length xs - 1) = real (length xs) - 1"
    using assms by (simp add: of_nat_diff)
  ultimately show ?thesis
    by (simp add: variance_def spec_sample_variance_def Let_def)
qed

lemma ess_variances_valid:
  assumes v: "valid_sim sim n" and N: "2 \<le> spec_N (kept_chains sim n)"
  shows "ess_variances sim n =
    Inr (chains sim, spec_N (kept_chains sim n), map stan_autocovariance (kept_chains sim n),
         spec_mean_var (kept_chains sim n), spec_var_plus (kept_chains sim n))"
proof -
  let ?ys = "kept_chains sim n"
  let ?m = "chains sim"
  have len: "\<forall>c\<in>set [0..<?m]. c < ?m \<and> 2 \<le> length (kept sim n c)"
    using spec_N_le [of _ ?ys] N by (fastforce simp: nth_kept_chains)
  have cl: "chain_loop sim n (map length ?ys) (map stan_autocovariance ?ys) [0..<?m] ([], [])
      = Inr (map spec_chain_mean ?ys, map spec_chain_var ?ys)"
    using chain_loop_valid [OF v len, of "[]" "[]"] by (simp add: kept_chains_def comp_def)
  have ne: "?ys \<noteq> []"
    using valid_sim_lengths(4) [OF v] by (simp add: kept_chains_def)
  have mv: "mean (map spec_chain_var ?ys) = Inr (spec_mean_var ?ys)"
    using ne by (simp add: mean_map_nonempty spec_mean_var_def)
  have Nb: "int (spec_N ?ys) < 2 ^ 32"
  proof -
    have "0 < ?m" using valid_sim_lengths(4) [OF v] by simp
    then have "spec_N ?ys \<le> length (?ys ! 0)"
      by (intro spec_N_le) simp
    also have "\<dots> \<le> n_save sim ! 0"
      using \<open>0 < ?m\<close> by (simp add: nth_kept_chains length_kept [OF v])
    finally show ?thesis
      using warmup_le_save(2) [OF v \<open>0 < ?m\<close>] by simp
  qed
  have u: "usub (spec_N ?ys) 1 = spec_N ?ys - 1"
    using N Nb by (intro usub_one') simp_all
  have r: "real (spec_N ?ys - 1) = real (spec_N ?ys) - 1"
    using N by (simp add: of_nat_diff)
  have vp0: "cdiv (spec_mean_var ?ys * real (usub (spec_N ?ys) 1)) (real (spec_N ?ys))
      = Inr (spec_mean_var ?ys * (real (spec_N ?ys) - 1) / real (spec_N ?ys))"
    unfolding u using N by (simp add: cdiv_def r)
  have var: "1 < ?m \<Longrightarrow> variance (map spec_chain_mean ?ys)
      = Inr (spec_sample_variance (map spec_chain_mean ?ys))"
    by (intro variance_spec) simp
  show ?thesis
    by (simp add: ess_variances_def pool_variances_def read_counts_valid [OF v] acov_loop_all [OF v]
        ebind_def cl mv vp0 var spec_var_plus_def del: One_nat_def)
qed

subsection \<open>The truncated sum of autocorrelations\<close>

declare rho_loop.simps [simp del]

lemma ebind_Inr [simp]: "ebind (Inr x) f = f x"
  by (simp add: ebind_def)

lemma ebind_Inl [simp]: "ebind (Inl e) f = Inl e"
  by (simp add: ebind_def)

lemma lag_column_fold:
  assumes "\<forall>c\<in>set cs. c < length acov \<and> t < length (acov ! c)"
  shows "lag_column acov t cs col = Inr (fold (\<lambda>c col. col[c := acov ! c ! t]) cs col)"
  using assms by (induction cs arbitrary: col) (simp_all add: vec_get_def)

lemma fold_list_update_upt:
  assumes "j \<le> length col"
  shows "fold (\<lambda>c col. col[c := f c]) [0..<j] col = map f [0..<j] @ drop j col"
  using assms
proof (induction j)
  case 0
  then show ?case by simp
next
  case (Suc j)
  then have "j < length col" by simp
  then have "(map f [0..<j] @ drop j col)[j := f j] = map f [0..<j] @ f j # drop (Suc j) col"
    by (simp add: list_update_append Cons_nth_drop_Suc [symmetric])
  then show ?case
    using Suc by simp
qed

lemma lag_column_all:
  assumes "length acov = m" and "\<forall>c<m. t < length (acov ! c)"
  shows "lag_column acov t [0..<m] (replicate m 0) = Inr (map (\<lambda>a. a ! t) acov)"
proof -
  have "lag_column acov t [0..<m] (replicate m 0)
      = Inr (fold (\<lambda>c col. col[c := acov ! c ! t]) [0..<m] (replicate m 0))"
    using assms by (intro lag_column_fold) simp
  also have "fold (\<lambda>c col. col[c := acov ! c ! t]) [0..<m] (replicate m 0)
      = map (\<lambda>c. acov ! c ! t) [0..<m]"
    by (simp add: fold_list_update_upt)
  also have "\<dots> = map (\<lambda>a. a ! t) acov"
    using assms(1) by (intro nth_equalityI) simp_all
  finally show ?thesis .
qed

lemma rho_loop_takeWhile:
  assumes "var_plus \<noteq> 0" and "length acov = m" and "1 \<le> m"
    and "\<forall>c<m. n_samples \<le> length (acov ! c)"
  shows "rho_loop m n_samples acov mean_var var_plus t rho_hat rho_hat_t =
    Inr (if 0 \<le> rho_hat
         then rho_hat_t @ takeWhile (\<lambda>r. 0 \<le> r)
                (map (rho_of acov mean_var var_plus) [t..<n_samples])
         else rho_hat_t)"
  using assms
proof (induction m n_samples acov mean_var var_plus t rho_hat rho_hat_t rule: rho_loop.induct)
  case (1 m n_samples acov mean_var var_plus t rho_hat rho_hat_t)
  show ?case
  proof (cases "t < n_samples \<and> 0 \<le> rho_hat")
    case True
    have col: "lag_column acov t [0..<m] (replicate m 0) = Inr (map (\<lambda>a. a ! t) acov)"
      using "1.prems" True by (intro lag_column_all) auto
    have ne: "map (\<lambda>a. a ! t) acov \<noteq> []"
      using "1.prems" by auto
    have mu: "mean (map (\<lambda>a. a ! t) acov)
        = Inr (sum_list (map (\<lambda>a. a ! t) acov) / real (length acov))"
      using ne by (simp add: mean_def)
    let ?q = "(mean_var - sum_list (map (\<lambda>a. a ! t) acov) / real (length acov)) / var_plus"
    have q: "cdiv (mean_var - sum_list (map (\<lambda>a. a ! t) acov) / real (length acov)) var_plus
        = Inr ?q"
      using "1.prems" by (simp add: cdiv_def)
    have r: "rho_of acov mean_var var_plus t = 1 - ?q"
      by (simp add: rho_of_def)
    have up: "[t..<n_samples] = t # [t + 1..<n_samples]"
      using True by (simp add: upt_conv_Cons)
    have IH: "rho_loop m n_samples acov mean_var var_plus (t + 1) (1 - ?q)
          (if 0 \<le> 1 - ?q then rho_hat_t @ [1 - ?q] else rho_hat_t)
        = Inr (if 0 \<le> 1 - ?q
               then (if 0 \<le> 1 - ?q then rho_hat_t @ [1 - ?q] else rho_hat_t)
                 @ takeWhile (\<lambda>r. 0 \<le> r) (map (rho_of acov mean_var var_plus) [t + 1..<n_samples])
               else (if 0 \<le> 1 - ?q then rho_hat_t @ [1 - ?q] else rho_hat_t))"
      using "1.IH" [OF True "1.prems"] .
    show ?thesis
      apply (subst rho_loop.simps)
      apply (simp only: True if_True col ebind_Inr mu q IH up list.map takeWhile.simps r)
      apply simp
      done
  next
    case False
    then show ?thesis
      by (subst rho_loop.simps) auto
  qed
qed

lemma spec_rho_hat_rho_of:
  "rho_of (map stan_autocovariance ys) (spec_mean_var ys) (spec_var_plus ys) t = spec_rho_hat ys t"
  by (simp add: rho_of_def spec_rho_hat_def comp_def)

lemma rho_loop_spec:
  assumes "spec_var_plus ys \<noteq> 0" and "ys \<noteq> []"
  shows "rho_loop (length ys) (spec_N ys) (map stan_autocovariance ys) (spec_mean_var ys)
           (spec_var_plus ys) 0 0 [] = Inr (spec_rho_hat_t ys)"
proof -
  have "\<forall>c<length ys. spec_N ys \<le> length (map stan_autocovariance ys ! c)"
    using spec_N_le by simp
  moreover have "1 \<le> length ys"
    using assms(2) by (simp add: Suc_le_eq)
  ultimately show ?thesis
    using rho_loop_takeWhile [OF assms(1), of "map stan_autocovariance ys" "length ys" "spec_N ys"
        "spec_mean_var ys" 0 0 "[]"]
    by (simp add: spec_rho_hat_rho_of [abs_def] spec_rho_hat_t_def)
qed

subsection \<open>The effective sample size\<close>

lemma umul_small:
  assumes "int a * int b < 2 ^ 32"
  shows "umul a b = a * b"
proof -
  have "(int a * int b) mod 2 ^ 32 = int a * int b"
    using assms by (intro mod_pos_pos_trivial) simp_all
  then show ?thesis
    by (simp add: umul_def nat_mult_distrib)
qed

lemma spec_rho_hat_t_nonneg: "\<forall>r\<in>set (spec_rho_hat_t ys). 0 \<le> r"
  unfolding spec_rho_hat_t_def by (auto dest: set_takeWhileD)

lemma rho_sum_pos: "0 < 1 + 2 * sum_list (spec_rho_hat_t ys)"
proof -
  have "0 \<le> sum_list (spec_rho_hat_t ys)"
    using spec_rho_hat_t_nonneg by (intro sum_list_nonneg) auto
  then show ?thesis by simp
qed

lemma rho_loop_zero_var_plus:
  assumes "length acov = m" and "1 \<le> m" and "\<forall>c<m. 0 < length (acov ! c)" and "0 < n_samples"
  shows "rho_loop m n_samples acov mean_var 0 0 0 [] = Inl ZeroDivisionError"
proof -
  have col: "lag_column acov 0 [0..<m] (replicate m 0) = Inr (map (\<lambda>a. a ! 0) acov)"
    using assms by (intro lag_column_all) auto
  have ne: "map (\<lambda>a. a ! 0) acov \<noteq> []"
    using assms by auto
  have mu: "mean (map (\<lambda>a. a ! 0) acov)
      = Inr (sum_list (map (\<lambda>a. a ! 0) acov) / real (length acov))"
    using ne by (simp add: mean_def)
  show ?thesis
    using assms(4) by (subst rho_loop.simps) (simp add: col mu cdiv_def)
qed

lemma ess_valid:
  assumes v: "valid_sim sim n" and N: "2 \<le> spec_N (kept_chains sim n)"
  shows "effective_sample_size sim n =
    (if spec_var_plus (kept_chains sim n) = 0 then Inl ZeroDivisionError
     else Inr (let rs = spec_rho_hat_t (kept_chains sim n);
                   ess = real (umul (chains sim) (spec_N (kept_chains sim n)))
               in if rs = [] then ess else ess / (1 + 2 * sum_list rs)))"
proof -
  let ?ys = "kept_chains sim n"
  have ne: "?ys \<noteq> []"
    using valid_sim_lengths(4) [OF v] by (simp add: kept_chains_def)
  show ?thesis
  proof (cases "spec_var_plus ?ys = 0")
    case True
    have "\<forall>c<chains sim. 0 < length (map stan_autocovariance ?ys ! c)"
    proof (intro allI impI)
      fix c assume c: "c < chains sim"
      then have "spec_N ?ys \<le> length (?ys ! c)"
        by (intro spec_N_le) simp
      then have "0 < length (?ys ! c)"
        using N by linarith
      then show "0 < length (map stan_autocovariance ?ys ! c)"
        using c by (simp del: length_greater_0_conv)
    qed
    then have "rho_loop (chains sim) (spec_N ?ys) (map stan_autocovariance ?ys) (spec_mean_var ?ys)
        0 0 0 [] = Inl ZeroDivisionError"
      using valid_sim_lengths(4) [OF v] N by (intro rho_loop_zero_var_plus) simp_all
    then show ?thesis
      using True by (simp add: effective_sample_size_def ess_result_def ess_variances_valid [OF v N])
  next
    case False
    have "rho_loop (chains sim) (spec_N ?ys) (map stan_autocovariance ?ys) (spec_mean_var ?ys)
        (spec_var_plus ?ys) 0 0 [] = Inr (spec_rho_hat_t ?ys)"
      using rho_loop_spec [OF False ne] by simp
    then show ?thesis
      using False rho_sum_pos [of ?ys]
      by (simp add: effective_sample_size_def ess_result_def ess_variances_valid [OF v N] Let_def cdiv_def
          sum_vec_def)
  qed
qed


text \<open>
  Claim C4. On a well-formed snapshot with \<open>N \<ge> 2\<close> and \<open>var_plus \<noteq> 0\<close> (and
  \<open>m * N\<close> within the range of \<^verbatim>\<open>unsigned int\<close>), the variances computed by
  \<open>effective_sample_size\<close> are those of section 4.3:
  \<open>chain_var[k] = acov[k][0] * n_kept[k] / (n_kept[k] - 1)\<close>, \<open>mean_var\<close> their mean,
  \<open>var_plus = mean_var * (N - 1) / N\<close> plus the sample variance of the chain means exactly
  when \<open>m > 1\<close>; and the result is \<open>m * N\<close> divided by \<open>1 + 2 * sum(rho_hat_t)\<close> when
  values were accumulated.
\<close>

theorem ess_formula:
  assumes "valid_sim sim n"
    and "2 \<le> spec_N (kept_chains sim n)"
    and "spec_var_plus (kept_chains sim n) \<noteq> 0"
    and "int (chains sim) * int (spec_N (kept_chains sim n)) < 2 ^ 32"
  shows "ess_variances sim n =
      Inr (chains sim, spec_N (kept_chains sim n), map stan_autocovariance (kept_chains sim n),
           spec_mean_var (kept_chains sim n), spec_var_plus (kept_chains sim n))
    \<and> effective_sample_size sim n = Inr (spec_ess (kept_chains sim n))"
  using ess_variances_valid [OF assms(1,2)] ess_valid [OF assms(1,2)] assms(3)
    umul_small [OF assms(4)]
  by (simp add: spec_ess_def Let_def)

theorem ess_formula_witness:
  "valid_sim sim_two_chains 0
   \<and> 2 \<le> spec_N (kept_chains sim_two_chains 0)
   \<and> spec_var_plus (kept_chains sim_two_chains 0) \<noteq> 0
   \<and> int (chains sim_two_chains) * int (spec_N (kept_chains sim_two_chains 0)) < 2 ^ 32
   \<and> ess_variances sim_two_chains 0 =
       Inr (2, 3, [[14 / 9, - (1 / 27), - (20 / 27)], [2 / 3, - (1 / 3), 0]], 5 / 3, 5 / 2)
   \<and> effective_sample_size sim_two_chains 0 = Inr (54 / 31)"
proof -
  have h1: "valid_sim sim_two_chains 0"
    by code_simp
  have h2: "2 \<le> spec_N (kept_chains sim_two_chains 0)"
    by code_simp
  have h3: "spec_var_plus (kept_chains sim_two_chains 0) \<noteq> 0"
    by code_simp
  have h4: "int (chains sim_two_chains) * int (spec_N (kept_chains sim_two_chains 0)) < 2 ^ 32"
    by code_simp
  have e1: "(chains sim_two_chains, spec_N (kept_chains sim_two_chains 0),
        map stan_autocovariance (kept_chains sim_two_chains 0),
        spec_mean_var (kept_chains sim_two_chains 0), spec_var_plus (kept_chains sim_two_chains 0))
      = (2, 3, [[14 / 9, - (1 / 27), - (20 / 27)], [2 / 3, - (1 / 3), 0]], 5 / 3, 5 / 2)"
    by code_simp
  have e2: "spec_ess (kept_chains sim_two_chains 0) = 54 / 31"
    by code_simp
  show ?thesis
    using h1 h2 h3 h4 ess_formula [OF h1 h2 h3 h4] unfolding e1 e2 by blast
qed

lemma takeWhile_map_upt:
  fixes f :: "nat \<Rightarrow> real" and N :: nat
  defines "T \<equiv> length (takeWhile (\<lambda>r. 0 \<le> r) (map f [0..<N]))"
  shows "T \<le> N" and "takeWhile (\<lambda>r. 0 \<le> r) (map f [0..<N]) = map f [0..<T]"
    and "\<forall>t<T. 0 \<le> f t" and "T < N \<longrightarrow> f T < 0"
proof -
  let ?xs = "map f [0..<N]"
  show le: "T \<le> N"
    using length_takeWhile_le [of "\<lambda>r. 0 \<le> r" ?xs] by (simp add: T_def)
  have "takeWhile (\<lambda>r. 0 \<le> r) ?xs = take T ?xs"
    unfolding T_def by (rule takeWhile_eq_take)
  also have "\<dots> = map f [0..<T]"
    using le by (simp add: take_map min_def)
  finally show eq: "takeWhile (\<lambda>r. 0 \<le> r) ?xs = map f [0..<T]" .
  show "\<forall>t<T. 0 \<le> f t"
  proof (intro allI impI)
    fix t assume t: "t < T"
    then have "f t \<in> set (takeWhile (\<lambda>r. 0 \<le> r) ?xs)"
      unfolding eq by simp
    then show "0 \<le> f t"
      by (rule set_takeWhileD [THEN conjunct2])
  qed
  show "T < N \<longrightarrow> f T < 0"
  proof
    assume "T < N"
    then have "\<not> 0 \<le> ?xs ! T"
      unfolding T_def by (intro nth_length_takeWhile) simp
    then show "f T < 0"
      using \<open>T < N\<close> by simp
  qed
qed


text \<open>
  Claim C5. On a well-formed snapshot with \<open>N \<ge> 2\<close> and \<open>var_plus \<noteq> 0\<close>, the loop of
  lines 139-146, run on the variances that \<open>effective_sample_size\<close> computed, leaves in
  \<^verbatim>\<open>rho_hat_t\<close> exactly \<open>rho_hat(0), ..., rho_hat(T - 1)\<close> for some \<open>T \<le> N\<close>: all of them
  are non-negative, no lag \<open>t \<ge> N\<close> is included, and if \<open>T < N\<close> then \<open>rho_hat(T)\<close> is the
  first negative value, which is not included; if no value is negative, \<open>T = N\<close>.
\<close>

theorem rho_sum_truncation:
  assumes "valid_sim sim n"
    and "2 \<le> spec_N (kept_chains sim n)"
    and "spec_var_plus (kept_chains sim n) \<noteq> 0"
  shows "ess_variances sim n =
      Inr (chains sim, spec_N (kept_chains sim n), map stan_autocovariance (kept_chains sim n),
           spec_mean_var (kept_chains sim n), spec_var_plus (kept_chains sim n))
    \<and> rho_loop (chains sim) (spec_N (kept_chains sim n))
           (map stan_autocovariance (kept_chains sim n)) (spec_mean_var (kept_chains sim n))
           (spec_var_plus (kept_chains sim n)) 0 0 []
         = Inr (spec_rho_hat_t (kept_chains sim n))
    \<and> length (spec_rho_hat_t (kept_chains sim n)) \<le> spec_N (kept_chains sim n)
    \<and> spec_rho_hat_t (kept_chains sim n)
        = map (spec_rho_hat (kept_chains sim n)) [0..<length (spec_rho_hat_t (kept_chains sim n))]
    \<and> (\<forall>t<length (spec_rho_hat_t (kept_chains sim n)). 0 \<le> spec_rho_hat (kept_chains sim n) t)
    \<and> (length (spec_rho_hat_t (kept_chains sim n)) < spec_N (kept_chains sim n) \<longrightarrow>
          spec_rho_hat (kept_chains sim n) (length (spec_rho_hat_t (kept_chains sim n))) < 0)"
proof -
  let ?ys = "kept_chains sim n"
  have ne: "?ys \<noteq> []"
    using valid_sim_lengths(4) [OF assms(1)] by (simp add: kept_chains_def)
  have "rho_loop (length ?ys) (spec_N ?ys) (map stan_autocovariance ?ys) (spec_mean_var ?ys)
      (spec_var_plus ?ys) 0 0 [] = Inr (spec_rho_hat_t ?ys)"
    using assms(3) ne by (rule rho_loop_spec)
  then show ?thesis
    using takeWhile_map_upt [of "spec_rho_hat ?ys" "spec_N ?ys"]
      ess_variances_valid [OF assms(1,2)]
    by (simp add: spec_rho_hat_t_def)
qed

theorem rho_sum_truncation_witness:
  "valid_sim sim_two_chains 1
   \<and> 2 \<le> spec_N (kept_chains sim_two_chains 1)
   \<and> spec_var_plus (kept_chains sim_two_chains 1) \<noteq> 0
   \<and> spec_N (kept_chains sim_two_chains 1) = 3
   \<and> rho_loop (chains sim_two_chains) (spec_N (kept_chains sim_two_chains 1))
        (map stan_autocovariance (kept_chains sim_two_chains 1))
        (spec_mean_var (kept_chains sim_two_chains 1))
        (spec_var_plus (kept_chains sim_two_chains 1)) 0 0 [] = Inr [35 / 54]
   \<and> spec_rho_hat (kept_chains sim_two_chains 1) 0 = 35 / 54
   \<and> spec_rho_hat (kept_chains sim_two_chains 1) 1 < 0"
proof -
  have h1: "valid_sim sim_two_chains 1"
    by code_simp
  have h2: "2 \<le> spec_N (kept_chains sim_two_chains 1)"
    by code_simp
  have h3: "spec_var_plus (kept_chains sim_two_chains 1) \<noteq> 0"
    by code_simp
  have e1: "spec_rho_hat_t (kept_chains sim_two_chains 1) = [35 / 54]"
    by code_simp
  have e2: "spec_N (kept_chains sim_two_chains 1) = 3"
    by code_simp
  have e3: "spec_rho_hat (kept_chains sim_two_chains 1) 0 = 35 / 54"
    by code_simp
  have "length [35 / 54 :: real] < 3 \<longrightarrow>
      spec_rho_hat (kept_chains sim_two_chains 1) (length [35 / 54 :: real]) < 0"
    using rho_sum_truncation [OF h1 h2 h3] unfolding e1 e2 by blast
  then have e4: "spec_rho_hat (kept_chains sim_two_chains 1) 1 < 0"
    by simp
  show ?thesis
    using h1 h2 h3 e2 e3 e4 rho_sum_truncation [OF h1 h2 h3] unfolding e1 by blast
qed

subsection \<open>Degenerate variances\<close>

lemma ebind_eq_Inr: "ebind m f = Inr y \<longleftrightarrow> (\<exists>x. m = Inr x \<and> f x = Inr y)"
  by (cases m) simp_all

lemma acov_loop_length:
  "acov_loop sim n cs acc = Inr acov \<Longrightarrow> length acov = length acc + length cs"
  by (induction cs arbitrary: acc) (auto simp: ebind_eq_Inr)

lemma chain_loop_Inr:
  assumes "chain_loop sim n ns_kept acov cs (cm, cv) = Inr (cm', cv')"
  shows "(\<forall>c\<in>set cs. c < length acov \<and> 0 < length (acov ! c))
    \<and> length cv' = length cv + length cs"
  using assms
proof (induction cs arbitrary: cm cv)
  case Nil
  then show ?case by simp
next
  case (Cons c cs)
  from Cons.prems obtain k m a a0 v where
    a: "vec_get acov c = Inr a" and a0: "vec_get a 0 = Inr a0"
    and rest: "chain_loop sim n ns_kept acov cs (cm @ [m], cv @ [v]) = Inr (cm', cv')"
    by (auto simp: ebind_eq_Inr)
  have "c < length acov \<and> 0 < length (acov ! c)"
    using a a0 by (auto simp: vec_get_def split: if_splits)
  then show ?case
    using Cons.IH [OF rest] by simp
qed

lemma ess_zero_var_plus:
  assumes "ess_variances sim n = Inr (m, n_samples, acov, mean_var, 0)"
  shows "effective_sample_size sim n = Inl ZeroDivisionError"
proof -
  from assms obtain ns_kept n0 cm cv vp0 where
    al: "acov_loop sim n [0..<m] [] = Inr acov"
    and cl: "chain_loop sim n ns_kept acov [0..<m] ([], []) = Inr (cm, cv)"
    and mv: "mean cv = Inr mean_var"
    and vp: "cdiv (mean_var * real (usub n_samples 1)) (real n_samples) = Inr vp0"
    by (auto simp: ess_variances_def pool_variances_def ebind_eq_Inr split: if_splits simp del: One_nat_def)
  have len: "length acov = m"
    using acov_loop_length [OF al] by simp
  have cv: "(\<forall>c<m. 0 < length (acov ! c)) \<and> length cv = m"
    using chain_loop_Inr [OF cl] by simp
  have "cv \<noteq> []"
    using mv by (auto simp: mean_def split: if_splits)
  then have m: "1 \<le> m"
    using cv by (cases cv) auto
  have N: "0 < n_samples"
    using vp by (auto simp: cdiv_def split: if_splits)
  have "rho_loop m n_samples acov mean_var 0 0 0 [] = Inl ZeroDivisionError"
    using len m cv N by (intro rho_loop_zero_var_plus) simp_all
  then show ?thesis
    by (simp add: effective_sample_size_def ess_result_def assms)
qed

lemma srhat_zero_var_within:
  assumes "split_variances sim n = Inr (n_samples, var_between, 0)"
  shows "split_potential_scale_reduction sim n = Inl ZeroDivisionError"
  by (simp add: split_potential_scale_reduction_def split_ratio_def split_ratio_of_def assms cdiv_def)


text \<open>
  Claim C2. Whenever \<open>effective_sample_size\<close> has computed \<open>var_plus = 0\<close>, or
  \<open>split_potential_scale_reduction\<close> has computed \<open>var_within = 0\<close>, the function raises
  \<^verbatim>\<open>ZeroDivisionError\<close> at the division by that variance and returns no number. A single
  chain of equal kept draws is such an input for both.
\<close>

theorem degenerate_variance_raises:
  "(ess_variances sim n = Inr (m, n_samples, acov, mean_var, 0) \<longrightarrow>
      effective_sample_size sim n = Inl ZeroDivisionError)
   \<and> (split_variances sim n = Inr (n_samples', var_between, 0) \<longrightarrow>
      split_potential_scale_reduction sim n = Inl ZeroDivisionError)"
  using ess_zero_var_plus srhat_zero_var_within by blast

theorem degenerate_variance_raises_witness:
  "ess_variances sim_constant 0 = Inr (1, 4, [[0, 0, 0, 0]], 0, 0)
   \<and> effective_sample_size sim_constant 0 = Inl ZeroDivisionError
   \<and> split_variances sim_constant 0 = Inr (4, 0, 0)
   \<and> split_potential_scale_reduction sim_constant 0 = Inl ZeroDivisionError"
proof -
  have h1: "ess_variances sim_constant 0 = Inr (1, 4, [[0, 0, 0, 0]], 0, 0)"
    by code_simp
  have h2: "split_variances sim_constant 0 = Inr (4, 0, 0)"
    by code_simp
  show ?thesis
    using h1 h2
      degenerate_variance_raises [of sim_constant 0 1 4 "[[0, 0, 0, 0]]" 0 4 0]
    by blast
qed

subsection \<open>The autocorrelation at lag 0\<close>

lemma acov0_nonneg:
  assumes "y \<noteq> []"
  shows "0 \<le> stan_autocovariance y ! 0"
proof -
  let ?mu = "sum_list y / real (length y)"
  have "stan_autocovariance y ! 0
      = sum_list (map (\<lambda>i. (y ! i - ?mu) * (y ! i - ?mu)) [0..<length y]) / real (length y)"
    using assms by (simp add: stan_autocovariance_def Let_def)
  moreover have "0 \<le> sum_list (map (\<lambda>i. (y ! i - ?mu) * (y ! i - ?mu)) [0..<length y])"
    by (intro sum_list_nonneg) auto
  ultimately show ?thesis by simp
qed

lemma spec_sample_variance_nonneg:
  assumes "2 \<le> length xs"
  shows "0 \<le> spec_sample_variance xs"
proof -
  have "0 \<le> sum_list (map (\<lambda>x. (x - sum_list xs / real (length xs)) ^ 2) xs)"
    by (intro sum_list_nonneg) auto
  moreover have "0 < real (length xs) - 1"
    using assms by simp
  ultimately show ?thesis
    by (simp add: spec_sample_variance_def Let_def)
qed

lemma chain_var_gap:
  fixes a :: real
  assumes "0 \<le> a" and "2 \<le> N" and "N \<le> L"
  shows "a * real L / (real L - 1) - a \<le> a * real L / (real L - 1) * (real N - 1) / real N"
    and "0 \<le> a * real L / (real L - 1) - a"
proof -
  have L: "0 < real L - 1" and Npos: "0 < real N" and N1: "1 \<le> real N - 1"
    using assms(2,3) by simp_all
  have lhs: "a * real L / (real L - 1) - a = a / (real L - 1)"
    using L by (simp add: field_simps)
  have q: "0 \<le> a / (real L - 1)"
    using assms(1) L by simp
  show "0 \<le> a * real L / (real L - 1) - a"
    unfolding lhs by (rule q)
  have "real N * 1 \<le> real N * (real N - 1)"
    using N1 Npos by (intro mult_left_mono) simp_all
  also have "\<dots> \<le> real L * (real N - 1)"
    using assms(3) N1 by (intro mult_right_mono) simp_all
  finally have "1 \<le> real L * (real N - 1) / real N"
    using Npos by (simp add: le_divide_eq)
  then have "a / (real L - 1) * 1 \<le> a / (real L - 1) * (real L * (real N - 1) / real N)"
    using q by (intro mult_left_mono)
  also have "\<dots> = a * real L / (real L - 1) * (real N - 1) / real N"
    by simp
  finally show "a * real L / (real L - 1) - a
      \<le> a * real L / (real L - 1) * (real N - 1) / real N"
    unfolding lhs by simp
qed

lemma spec_chain_var_gap:
  assumes "2 \<le> N" and "N \<le> length y"
  shows "spec_chain_var y - stan_autocovariance y ! 0 \<le> spec_chain_var y * (real N - 1) / real N"
    and "0 \<le> spec_chain_var y - stan_autocovariance y ! 0"
proof -
  have "y \<noteq> []" using assms by auto
  then have a: "0 \<le> stan_autocovariance y ! 0"
    by (rule acov0_nonneg)
  show "spec_chain_var y - stan_autocovariance y ! 0 \<le> spec_chain_var y * (real N - 1) / real N"
    unfolding spec_chain_var_def by (rule chain_var_gap(1) [OF a assms])
  show "0 \<le> spec_chain_var y - stan_autocovariance y ! 0"
    unfolding spec_chain_var_def by (rule chain_var_gap(2) [OF a assms])
qed

lemma mean_var_gap:
  assumes "ys \<noteq> []" and "2 \<le> spec_N ys"
  shows "spec_mean_var ys - sum_list (map (\<lambda>y. stan_autocovariance y ! 0) ys) / real (length ys)
      \<le> spec_mean_var ys * (real (spec_N ys) - 1) / real (spec_N ys)"
    and "0 \<le> spec_mean_var ys
      - sum_list (map (\<lambda>y. stan_autocovariance y ! 0) ys) / real (length ys)"
proof -
  let ?N = "spec_N ys"
  let ?a = "\<lambda>y. stan_autocovariance y ! 0"
  have m: "0 < real (length ys)"
    using assms(1) by simp
  have len: "\<forall>y\<in>set ys. ?N \<le> length y"
    using spec_N_le [of _ ys] by (auto simp: in_set_conv_nth)
  have diff: "sum_list (map spec_chain_var ys) - sum_list (map ?a ys)
      = sum_list (map (\<lambda>y. spec_chain_var y - ?a y) ys)"
    by (simp add: sum_list_subtractf)
  have "sum_list (map (\<lambda>y. spec_chain_var y - ?a y) ys)
      \<le> sum_list (map (\<lambda>y. spec_chain_var y * ((real ?N - 1) / real ?N)) ys)"
    using len spec_chain_var_gap(1) [OF assms(2)] by (intro sum_list_mono) simp
  also have "\<dots> = sum_list (map spec_chain_var ys) * ((real ?N - 1) / real ?N)"
    by (rule sum_list_mult_const)
  finally have up: "sum_list (map spec_chain_var ys) - sum_list (map ?a ys)
      \<le> sum_list (map spec_chain_var ys) * ((real ?N - 1) / real ?N)"
    unfolding diff .
  have "spec_mean_var ys - sum_list (map ?a ys) / real (length ys)
      = (sum_list (map spec_chain_var ys) - sum_list (map ?a ys)) / real (length ys)"
    by (simp add: spec_mean_var_def diff_divide_distrib)
  also have "\<dots> \<le> sum_list (map spec_chain_var ys) * ((real ?N - 1) / real ?N) / real (length ys)"
    using up m by (intro divide_right_mono) simp_all
  also have "\<dots> = spec_mean_var ys * (real ?N - 1) / real ?N"
    by (simp add: spec_mean_var_def)
  finally show "spec_mean_var ys - sum_list (map ?a ys) / real (length ys)
      \<le> spec_mean_var ys * (real ?N - 1) / real ?N" .
  have "0 \<le> sum_list (map (\<lambda>y. spec_chain_var y - ?a y) ys)"
    using len spec_chain_var_gap(2) [OF assms(2)] by (intro sum_list_nonneg) auto
  then have "0 \<le> (sum_list (map spec_chain_var ys) - sum_list (map ?a ys)) / real (length ys)"
    unfolding diff using m by simp
  then show "0 \<le> spec_mean_var ys - sum_list (map ?a ys) / real (length ys)"
    by (simp add: spec_mean_var_def diff_divide_distrib)
qed

lemma spec_rho_hat_0_bounds:
  assumes "ys \<noteq> []" and "2 \<le> spec_N ys" and "0 < spec_var_plus ys"
  shows "0 \<le> spec_rho_hat ys 0" and "spec_rho_hat ys 0 \<le> 1"
proof -
  let ?g = "spec_mean_var ys - sum_list (map (\<lambda>y. stan_autocovariance y ! 0) ys) / real (length ys)"
  have "0 \<le> (if length ys > 1 then spec_sample_variance (map spec_chain_mean ys) else 0)"
    using spec_sample_variance_nonneg [of "map spec_chain_mean ys"] by simp
  then have "spec_mean_var ys * (real (spec_N ys) - 1) / real (spec_N ys) \<le> spec_var_plus ys"
    by (simp add: spec_var_plus_def)
  then have "?g \<le> spec_var_plus ys"
    using mean_var_gap(1) [OF assms(1,2)] by linarith
  then have "?g / spec_var_plus ys \<le> 1"
    using assms(3) by (simp add: divide_le_eq)
  then show "0 \<le> spec_rho_hat ys 0"
    by (simp add: spec_rho_hat_def)
  have "0 \<le> ?g / spec_var_plus ys"
    using mean_var_gap(2) [OF assms(1,2)] assms(3) by simp
  then show "spec_rho_hat ys 0 \<le> 1"
    by (simp add: spec_rho_hat_def)
qed

lemma spec_rho_hat_t_nonempty:
  assumes "0 < spec_N ys" and "0 \<le> spec_rho_hat ys 0"
  shows "spec_rho_hat_t ys \<noteq> []" and "hd (spec_rho_hat_t ys) = spec_rho_hat ys 0"
proof -
  have "[0..<spec_N ys] = 0 # [1..<spec_N ys]"
    using assms(1) by (simp add: upt_conv_Cons)
  then have "spec_rho_hat_t ys
      = spec_rho_hat ys 0 # takeWhile (\<lambda>r. 0 \<le> r) (map (spec_rho_hat ys) [1..<spec_N ys])"
    using assms(2) by (simp add: spec_rho_hat_t_def)
  then show "spec_rho_hat_t ys \<noteq> []" and "hd (spec_rho_hat_t ys) = spec_rho_hat ys 0"
    by simp_all
qed

text \<open>
  Claim C6, as amended. On a well-formed snapshot with \<open>N \<ge> 2\<close> and \<open>var_plus > 0\<close>, the
  lag-0 autocorrelation \<open>rho_hat(0) = 1 - (mean_var - mean_k(acov[k][0])) / var_plus\<close> lies
  between 0 and 1. So the loop accumulates it first, \<^verbatim>\<open>rho_hat_t\<close> is never empty, and the
  result is \<open>m * N / (1 + 2 * sum(rho_hat_t))\<close>: the branch that returns \<open>m * N\<close> undivided
  is not taken.
\<close>

theorem rho_hat_0_accumulated:
  assumes "valid_sim sim n"
    and "2 \<le> spec_N (kept_chains sim n)"
    and "0 < spec_var_plus (kept_chains sim n)"
  shows "0 \<le> spec_rho_hat (kept_chains sim n) 0
    \<and> spec_rho_hat (kept_chains sim n) 0 \<le> 1
    \<and> spec_rho_hat_t (kept_chains sim n) \<noteq> []
    \<and> hd (spec_rho_hat_t (kept_chains sim n)) = spec_rho_hat (kept_chains sim n) 0
    \<and> rho_loop (chains sim) (spec_N (kept_chains sim n))
           (map stan_autocovariance (kept_chains sim n)) (spec_mean_var (kept_chains sim n))
           (spec_var_plus (kept_chains sim n)) 0 0 []
         = Inr (spec_rho_hat_t (kept_chains sim n))
    \<and> effective_sample_size sim n
         = Inr (real (umul (chains sim) (spec_N (kept_chains sim n)))
                / (1 + 2 * sum_vec (spec_rho_hat_t (kept_chains sim n))))"
proof -
  let ?ys = "kept_chains sim n"
  have ne: "?ys \<noteq> []"
    using valid_sim_lengths(4) [OF assms(1)] by (simp add: kept_chains_def)
  have vp: "spec_var_plus ?ys \<noteq> 0"
    using assms(3) by simp
  have N: "0 < spec_N ?ys"
    using assms(2) by simp
  note b = spec_rho_hat_0_bounds [OF ne assms(2,3)]
  note t = spec_rho_hat_t_nonempty [OF N b(1)]
  have "rho_loop (length ?ys) (spec_N ?ys) (map stan_autocovariance ?ys) (spec_mean_var ?ys)
      (spec_var_plus ?ys) 0 0 [] = Inr (spec_rho_hat_t ?ys)"
    using vp ne by (rule rho_loop_spec)
  then show ?thesis
    using b t ess_valid [OF assms(1,2)] vp by (simp add: Let_def sum_vec_def)
qed

text \<open>
  Claim C6 as stated fails: \<open>mean_var\<close> is the mean of the bias-corrected
  \<open>acov[k][0] * n_kept[k] / (n_kept[k] - 1)\<close>, not of \<open>acov[k][0]\<close>, so \<open>rho_hat(0)\<close> is not 1.
  For one chain with the kept draws 1, 2, 3 the variances are \<open>mean_var = 1\<close> and
  \<open>var_plus = 2/3 > 0\<close>, and the value accumulated at lag 0 is \<open>1/2\<close>.
\<close>

theorem rho_hat_0_not_one:
  "valid_sim sim_one_chain 0
   \<and> ess_variances sim_one_chain 0 = Inr (1, 3, [[2 / 3, 0, - (1 / 3)]], 1, 2 / 3)
   \<and> rho_loop 1 3 [[2 / 3, 0, - (1 / 3)]] 1 (2 / 3) 0 0 [] = Inr [1 / 2]
   \<and> rho_of [[2 / 3, 0, - (1 / 3)]] 1 (2 / 3) 0 \<noteq> 1"
  by code_simp

theorem rho_hat_0_accumulated_witness:
  "valid_sim sim_one_chain 0
   \<and> 2 \<le> spec_N (kept_chains sim_one_chain 0)
   \<and> 0 < spec_var_plus (kept_chains sim_one_chain 0)
   \<and> spec_rho_hat (kept_chains sim_one_chain 0) 0 = 1 / 2
   \<and> spec_rho_hat_t (kept_chains sim_one_chain 0) = [1 / 2]
   \<and> effective_sample_size sim_one_chain 0 = Inr (3 / 2)"
proof -
  have h1: "valid_sim sim_one_chain 0"
    by code_simp
  have h2: "2 \<le> spec_N (kept_chains sim_one_chain 0)"
    by code_simp
  have h3: "0 < spec_var_plus (kept_chains sim_one_chain 0)"
    by code_simp
  have e1: "spec_rho_hat (kept_chains sim_one_chain 0) 0 = 1 / 2"
    by code_simp
  have e2: "spec_rho_hat_t (kept_chains sim_one_chain 0) = [1 / 2]"
    by code_simp
  have e3: "real (umul (chains sim_one_chain) (spec_N (kept_chains sim_one_chain 0)))
      / (1 + 2 * sum_vec [1 / 2]) = 3 / 2"
    by code_simp
  show ?thesis
    using h1 h2 h3 e1 e2 rho_hat_0_accumulated [OF h1 h2 h3] unfolding e2 e3 by blast
qed

subsection \<open>Too few kept samples\<close>

lemma usub_self_one: "usub 1 1 = 0"
  by (simp add: usub_def)

lemma chain_loop_one_kept:
  assumes v: "valid_sim sim n"
    and cs: "\<forall>c\<in>set cs. c < chains sim \<and> 1 \<le> length (kept sim n c)"
    and ex: "\<exists>c\<in>set cs. length (kept sim n c) = 1"
  shows "chain_loop sim n (map length (kept_chains sim n))
           (map stan_autocovariance (kept_chains sim n)) cs (cm, cv)
         = Inl ZeroDivisionError"
  using cs ex
proof (induction cs arbitrary: cm cv)
  case Nil
  then show ?case by simp
next
  case (Cons c cs)
  let ?y = "kept sim n c"
  have c: "c < chains sim" and len: "1 \<le> length ?y"
    using Cons.prems(1) by simp_all
  have ne: "?y \<noteq> []"
    using len by auto
  have ane: "stan_autocovariance ?y \<noteq> []"
  proof
    assume "stan_autocovariance ?y = []"
    then have "length (stan_autocovariance ?y) = 0" by (simp only: list.size)
    then show False using len by simp
  qed
  show ?case
  proof (cases "length ?y = 1")
    case True
    have "cdiv (stan_autocovariance ?y ! 0 * real (length ?y)) (real (usub (length ?y) 1))
        = Inl ZeroDivisionError"
      unfolding True usub_self_one by (simp add: cdiv_def)
    then show ?thesis
      using c ane
      by (simp add: vec_get_def nth_kept_chains get_chain_mean_valid [OF v c ne]
          del: One_nat_def)
  next
    case False
    then have len2: "2 \<le> length ?y"
      using len by linarith
    have bound: "int (length ?y) < 2 ^ 32"
      using warmup_le_save(2) [OF v c] length_kept [OF v c] by simp
    have u: "usub (length ?y) 1 = length ?y - 1"
      using len bound by (intro usub_one') simp_all
    have r: "real (length ?y - 1) = real (length ?y) - 1"
      using len by (simp add: of_nat_diff)
    have step: "cdiv (stan_autocovariance ?y ! 0 * real (length ?y)) (real (usub (length ?y) 1))
        = Inr (spec_chain_var ?y)"
      unfolding u using len2 by (simp add: cdiv_def r spec_chain_var_def)
    have rest: "chain_loop sim n (map length (kept_chains sim n))
        (map stan_autocovariance (kept_chains sim n)) cs
        (cm @ [spec_chain_mean ?y], cv @ [spec_chain_var ?y]) = Inl ZeroDivisionError"
      using Cons.prems False by (intro Cons.IH) auto
    show ?thesis
      using c ane rest
      by (simp add: vec_get_def nth_kept_chains get_chain_mean_valid [OF v c ne] step
          del: One_nat_def)
  qed
qed

lemma ess_one_kept:
  assumes v: "valid_sim sim n" and N: "spec_N (kept_chains sim n) = 1"
  shows "effective_sample_size sim n = Inl ZeroDivisionError"
proof -
  let ?ys = "kept_chains sim n"
  let ?m = "chains sim"
  have ne: "map length ?ys \<noteq> []"
    using valid_sim_lengths(4) [OF v] by (simp add: kept_chains_def)
  have all: "\<forall>c\<in>set [0..<?m]. c < ?m \<and> 1 \<le> length (kept sim n c)"
  proof
    fix c assume "c \<in> set [0..<?m]"
    then have c: "c < ?m" by simp
    then have "spec_N ?ys \<le> length (?ys ! c)"
      by (intro spec_N_le) simp
    then show "c < ?m \<and> 1 \<le> length (kept sim n c)"
      using c N by (simp add: nth_kept_chains)
  qed
  have "Min (set (map length ?ys)) \<in> set (map length ?ys)"
    using ne by (intro Min_in) simp_all
  then have "1 \<in> set (map length ?ys)"
    using N by (simp add: spec_N_def)
  then have ex: "\<exists>c\<in>set [0..<?m]. length (kept sim n c) = 1"
    by (auto simp: kept_chains_def)
  have "chain_loop sim n (map length ?ys) (map stan_autocovariance ?ys) [0..<?m] ([], [])
      = Inl ZeroDivisionError"
    using v all ex by (rule chain_loop_one_kept)
  then show ?thesis
    by (simp add: effective_sample_size_def ess_result_def ess_variances_def pool_variances_def read_counts_valid [OF v]
        acov_loop_all [OF v])
qed

lemma push_back_range_ok:
  assumes "\<forall>i\<in>set js. i < length smp"
  shows "push_back_range smp js sc = Inr (sc @ map ((!) smp) js)"
  using assms by (induction js arbitrary: sc) (simp_all add: vec_get_def)

lemma map_nth_upt:
  assumes "hi \<le> length xs"
  shows "map ((!) xs) [lo..<hi] = take (hi - lo) (drop lo xs)"
  using assms by (intro nth_equalityI) auto

lemma push_back_range_upt:
  assumes "hi \<le> length smp"
  shows "push_back_range smp [lo..<hi] sc = Inr (sc @ take (hi - lo) (drop lo smp))"
  using assms by (simp add: push_back_range_ok map_nth_upt)

lemma split_halves_eq:
  assumes "n_samples \<le> length smp"
  shows "split_halves n_samples smp st =
     ebind (mean (split_chain st @ take (n_samples div 2) smp)) (\<lambda>m1.
     ebind (variance (split_chain st @ take (n_samples div 2) smp)) (\<lambda>v1.
     ebind (mean (take (n_samples - n_samples div 2) (drop (n_samples div 2) smp))) (\<lambda>m2.
     ebind (variance (take (n_samples - n_samples div 2) (drop (n_samples div 2) smp))) (\<lambda>v2.
       Inr \<lparr>split_chain_mean = split_chain_mean st @ [m1, m2],
            split_chain_var = split_chain_var st @ [v1, v2],
            samples_vec = smp,
            split_chain = take (n_samples - n_samples div 2) (drop (n_samples div 2) smp)\<rparr>))))"
proof -
  have a: "push_back_range smp [0..<n_samples div 2] (split_chain st)
      = Inr (split_chain st @ take (n_samples div 2) smp)"
    using assms push_back_range_upt [of "n_samples div 2" smp 0 "split_chain st"] by simp
  have b: "push_back_range smp [n_samples div 2..<n_samples] []
      = Inr (take (n_samples - n_samples div 2) (drop (n_samples div 2) smp))"
    using assms push_back_range_upt [of n_samples smp "n_samples div 2" "[]"] by simp
  show ?thesis
    by (simp add: split_halves_def a b)
qed

lemma srhat_single_short_chain:
  assumes v: "valid_sim sim n" and m: "chains sim = 1"
    and N: "spec_N (kept_chains sim n) = 2 \<or> spec_N (kept_chains sim n) = 3"
  shows "split_potential_scale_reduction sim n = Inl ZeroDivisionError"
proof -
  let ?y = "kept sim n 0"
  have ys: "kept_chains sim n = [?y]"
    by (simp add: kept_chains_def m)
  have len: "length ?y = 2 \<or> length ?y = 3"
    using N by (simp add: ys spec_N_def)
  have ns: "split_n_samples (spec_N (kept_chains sim n)) = 2"
    using N by (auto simp: split_n_samples_def)
  have le: "2 \<le> length ?y"
    using len by auto
  have h: "take (Suc 0) ?y = [?y ! 0]" "take (Suc 0) (drop (Suc 0) ?y) = [?y ! 1]"
    using le by (cases ?y; cases "tl ?y"; simp)+
  have step: "split_halves 2 ?y split_state_init =
      Inr \<lparr>split_chain_mean = [?y ! 0, ?y ! 1], split_chain_var = [0, 0],
           samples_vec = ?y, split_chain = [?y ! 1]\<rparr>"
    using le by (simp add: split_halves_eq h split_state_init_def mean_def variance_def)
  have loop: "split_loop sim n 2 [0..<1] split_state_init =
      Inr \<lparr>split_chain_mean = [?y ! 0, ?y ! 1], split_chain_var = [0, 0],
           samples_vec = ?y, split_chain = [?y ! 1]\<rparr>"
    using get_kept_samples_valid [OF v, of 0] m by (simp add: split_step_def step)
  obtain vb where vb: "variance [?y ! 0, ?y ! 1] = Inr vb"
    by (simp add: variance_def Let_def)
  have "split_variances sim n = Inr (2, real (2 div 2) * vb, 0)"
    by (simp add: split_variances_def pool_halves_def read_counts_valid [OF v] ns m loop vb mean_def Let_def
        del: One_nat_def)
  then show ?thesis
    by (rule srhat_zero_var_within)
qed

text \<open>
  Neither function compares the sample count with a threshold; too few kept draws are
  caught by the checked divisions. On a well-formed snapshot with \<open>N = 1\<close>,
  \<open>effective_sample_size\<close> stops with \<^verbatim>\<open>ZeroDivisionError\<close> at the bias correction
  \<open>n_kept / (n_kept - 1)\<close> of line 127, before any variance is pooled. On a single chain
  with \<open>N = 2\<close> or \<open>N = 3\<close>, \<open>split_potential_scale_reduction\<close> stops with the same
  error at \<open>var_between / var_within\<close>, both halves having one draw and variance 0.
\<close>

lemma short_chains_division_error:
  assumes "valid_sim sim n"
  shows "(spec_N (kept_chains sim n) = 1 \<longrightarrow>
            effective_sample_size sim n = Inl ZeroDivisionError)
    \<and> (chains sim = 1
         \<and> (spec_N (kept_chains sim n) = 2 \<or> spec_N (kept_chains sim n) = 3) \<longrightarrow>
            split_potential_scale_reduction sim n = Inl ZeroDivisionError)"
  using ess_one_kept [OF assms] srhat_single_short_chain [OF assms] by blast

lemma short_chains_division_error_example:
  "valid_sim sim_one_kept 0
   \<and> spec_N (kept_chains sim_one_kept 0) = 1
   \<and> effective_sample_size sim_one_kept 0 = Inl ZeroDivisionError
   \<and> valid_sim sim_one_chain 0
   \<and> chains sim_one_chain = 1
   \<and> spec_N (kept_chains sim_one_chain 0) = 3
   \<and> split_potential_scale_reduction sim_one_chain 0 = Inl ZeroDivisionError"
proof -
  have h1: "valid_sim sim_one_kept 0"
    by code_simp
  have h2: "spec_N (kept_chains sim_one_kept 0) = 1"
    by code_simp
  have h3: "valid_sim sim_one_chain 0"
    by code_simp
  have h4: "chains sim_one_chain = 1"
    by code_simp
  have h5: "spec_N (kept_chains sim_one_chain 0) = 3"
    by code_simp
  show ?thesis
    using h1 h2 h3 h4 h5 short_chains_division_error [OF h1] short_chains_division_error [OF h3]
    by blast
qed


subsection \<open>The halves of the chains\<close>

text \<open>
  Claim C1 fails on the code for two chains. The vector \<^verbatim>\<open>split_chain\<close> is cleared at
  line 201 only, so when the loop reaches chain 1 it still holds the second half of
  chain 0. With the kept draws 1, 2, 3, 4 and 5, 6, 7, 8 the third pseudo-chain is
  3, 4, 5, 6 (four entries, mean \<open>9/2\<close>) where the claim has 5, 6 (two entries, mean
  \<open>11/2\<close>).
\<close>

theorem split_chain_not_cleared:
  "valid_sim sim_split 0
   \<and> read_counts sim_split = Inr (2, [4, 4], 4)
   \<and> split_step sim_split 0 4 0 split_state_init =
       Inr \<lparr>split_chain_mean = [3 / 2, 7 / 2], split_chain_var = [1 / 2, 1 / 2],
            samples_vec = [1, 2, 3, 4], split_chain = [3, 4]\<rparr>
   \<and> get_kept_samples sim_split 1 0 [1, 2, 3, 4] = Inr [5, 6, 7, 8]
   \<and> push_back_range [5, 6, 7, 8] [0..<4 div 2] [3, 4] = Inr [3, 4, 5, 6]
   \<and> split_halves 4 [5, 6, 7, 8]
         \<lparr>split_chain_mean = [3 / 2, 7 / 2], split_chain_var = [1 / 2, 1 / 2],
          samples_vec = [1, 2, 3, 4], split_chain = [3, 4]\<rparr> =
       Inr \<lparr>split_chain_mean = [3 / 2, 7 / 2, 9 / 2, 15 / 2],
            split_chain_var = [1 / 2, 1 / 2, 5 / 3, 1 / 2],
            samples_vec = [5, 6, 7, 8], split_chain = [7, 8]\<rparr>
   \<and> split_loop sim_split 0 4 [0..<2] split_state_init =
       Inr \<lparr>split_chain_mean = [3 / 2, 7 / 2, 9 / 2, 15 / 2],
            split_chain_var = [1 / 2, 1 / 2, 5 / 3, 1 / 2],
            samples_vec = [5, 6, 7, 8], split_chain = [7, 8]\<rparr>
   \<and> mean [5, 6] = Inr (11 / 2)"
  by code_simp

subsection \<open>Odd numbers of kept samples\<close>












subsection \<open>The order of the chains, in exact arithmetic\<close>

lemma perm_length:
  assumes "distinct p" and "set p = {0..<m}"
  shows "length p = m"
  using distinct_card [OF assms(1)] assms(2) by simp

lemma perm_sum_list:
  fixes f :: "'a \<Rightarrow> real"
  assumes "distinct p" and "set p = {0..<length ys}"
  shows "sum_list (map f (map ((!) ys) p)) = sum_list (map f ys)"
proof -
  have "sum_list (map f (map ((!) ys) p)) = sum_list (map (\<lambda>i. f (ys ! i)) p)"
    by (simp add: comp_def)
  also have "\<dots> = (\<Sum>i\<in>set p. f (ys ! i))"
    using assms(1) by (rule sum_list_distinct_conv_sum_set)
  also have "\<dots> = (\<Sum>i\<in>set [0..<length ys]. f (ys ! i))"
    by (simp add: assms(2))
  also have "\<dots> = sum_list (map (\<lambda>i. f (ys ! i)) [0..<length ys])"
    by (rule sum_list_distinct_conv_sum_set [symmetric]) simp
  also have "\<dots> = sum_list (map f ys)"
    by (simp add: map_nth flip: map_map [unfolded comp_def])
  finally show ?thesis .
qed

lemma perm_set:
  assumes "set p = {0..<length ys}"
  shows "set (map ((!) ys) p) = set ys"
proof -
  have "set (map ((!) ys) p) = (!) ys ` {0..<length ys}"
    by (simp add: assms)
  also have "\<dots> = set ys"
    by (auto simp: in_set_conv_nth)
  finally show ?thesis .
qed

lemma spec_ess_parts_permuted:
  assumes d: "distinct p" and s: "set p = {0..<length ys}"
  shows "spec_N (map ((!) ys) p) = spec_N ys"
    and "spec_var_plus (map ((!) ys) p) = spec_var_plus ys"
    and "spec_rho_hat_t (map ((!) ys) p) = spec_rho_hat_t ys"
proof -
  let ?ys' = "map ((!) ys) p"
  have len: "length ?ys' = length ys"
    using perm_length [OF d s] by simp
  have "set (map length ?ys') = length ` set ?ys'"
    by (rule set_map)
  also have "\<dots> = length ` set ys"
    by (simp only: perm_set [OF s])
  also have "\<dots> = set (map length ys)"
    by (rule set_map [symmetric])
  finally show N: "spec_N ?ys' = spec_N ys"
    by (simp only: spec_N_def)
  have mv: "spec_mean_var ?ys' = spec_mean_var ys"
    unfolding spec_mean_var_def len perm_sum_list [OF d s] ..
  have cm: "sum_list (map spec_chain_mean ?ys') = sum_list (map spec_chain_mean ys)"
    by (rule perm_sum_list [OF d s])
  have sq: "sum_list (map (\<lambda>x. (x - mu) ^ 2) (map spec_chain_mean ?ys'))
      = sum_list (map (\<lambda>x. (x - mu) ^ 2) (map spec_chain_mean ys))" for mu
    using perm_sum_list [OF d s, of "\<lambda>y. (spec_chain_mean y - mu) ^ 2"]
    by (simp add: comp_def)
  have sv: "spec_sample_variance (map spec_chain_mean ?ys')
      = spec_sample_variance (map spec_chain_mean ys)"
    unfolding spec_sample_variance_def Let_def length_map perm_length [OF d s] cm sq ..
  show vp: "spec_var_plus ?ys' = spec_var_plus ys"
    unfolding spec_var_plus_def N mv len sv ..
  have "spec_rho_hat ?ys' t = spec_rho_hat ys t" for t
    unfolding spec_rho_hat_def mv vp len perm_sum_list [OF d s] ..
  then have "spec_rho_hat ?ys' = spec_rho_hat ys"
    by (rule ext)
  then show "spec_rho_hat_t ?ys' = spec_rho_hat_t ys"
    by (simp only: spec_rho_hat_t_def N)
qed

lemma valid_permute_chains:
  assumes v: "valid_sim sim n" and d: "distinct p" and s: "set p = {0..<chains sim}"
  shows "valid_sim (permute_chains p sim) n"
proof -
  note L = valid_sim_lengths [OF v]
  have lp: "length p = chains sim"
    using d s by (rule perm_length)
  have "valid_chain n (n_save (permute_chains p sim) ! k, warmup2 (permute_chains p sim) ! k,
      samples (permute_chains p sim) ! k)" if k: "k < chains sim" for k
  proof -
    have "p ! k \<in> set p"
      using k lp by simp
    then have "p ! k < chains sim"
      using s by simp
    then show ?thesis
      using valid_simD [OF v, of "p ! k"] k lp by (simp add: permute_chains_def)
  qed
  then show ?thesis
    using L lp by (simp add: valid_sim_def list_all_length permute_chains_def)
qed

lemma kept_chains_permute_chains:
  assumes d: "distinct p" and s: "set p = {0..<chains sim}"
  shows "kept_chains (permute_chains p sim) n = map ((!) (kept_chains sim n)) p"
proof -
  have lp: "length p = chains sim"
    using d s by (rule perm_length)
  have "kept (permute_chains p sim) n k = kept_chains sim n ! (p ! k)" if k: "k < chains sim" for k
  proof -
    have "p ! k \<in> set p"
      using k lp by simp
    then have "p ! k < chains sim"
      using s by simp
    then show ?thesis
      using k lp by (simp add: kept_def permute_chains_def nth_kept_chains)
  qed
  then show ?thesis
    using lp by (intro nth_equalityI) (simp_all add: kept_chains_def permute_chains_def)
qed

text \<open>
  In exact arithmetic, on a well-formed snapshot with \<open>N \<ge> 2\<close>, reordering the chains,
  that is applying one permutation \<open>p\<close> of the chain indices to \<^verbatim>\<open>n_save\<close>, \<^verbatim>\<open>warmup2\<close>
  and \<^verbatim>\<open>samples\<close>, does not change what \<open>effective_sample_size\<close> returns. The proof
  reorders sums of reals. The sums of the program are sums of doubles, rounded after each
  addition: with three chains or more their value can depend on the order of the chains,
  and the test \<open>rho_hat \<ge> 0\<close> of line 139 can turn a difference in the last bit into a
  different number of accumulated lags. The lemma is a property of the embedding and
  not of the compiled module.
\<close>

lemma ess_chain_order_exact:
  assumes "valid_sim sim n"
    and "2 \<le> spec_N (kept_chains sim n)"
    and "distinct p" and "set p = {0..<chains sim}"
  shows "effective_sample_size (permute_chains p sim) n = effective_sample_size sim n"
proof -
  let ?ys = "kept_chains sim n"
  have s: "set p = {0..<length ?ys}"
    using assms(4) by simp
  note v' = valid_permute_chains [OF assms(1,3,4)]
  note k = kept_chains_permute_chains [OF assms(3,4), of n]
  note e = spec_ess_parts_permuted [OF assms(3) s]
  have N': "2 \<le> spec_N (kept_chains (permute_chains p sim) n)"
    unfolding k e(1) by (rule assms(2))
  have m: "chains (permute_chains p sim) = chains sim"
    by (simp add: permute_chains_def)
  show ?thesis
    unfolding ess_valid [OF assms(1,2)] ess_valid [OF v' N'] k e m ..
qed

lemma ess_chain_order_exact_example:
  "valid_sim sim_two_chains 0
   \<and> 2 \<le> spec_N (kept_chains sim_two_chains 0)
   \<and> distinct [1, 0 :: nat]
   \<and> set [1, 0] = {0..<chains sim_two_chains}
   \<and> kept_chains (permute_chains [1, 0] sim_two_chains) 0 = [[5, 3, 4], [1, 2, 4]]
   \<and> kept_chains sim_two_chains 0 = [[1, 2, 4], [5, 3, 4]]
   \<and> effective_sample_size (permute_chains [1, 0] sim_two_chains) 0
       = effective_sample_size sim_two_chains 0
   \<and> effective_sample_size sim_two_chains 0 = Inr (54 / 31)"
proof -
  have h1: "valid_sim sim_two_chains 0"
    by code_simp
  have h2: "2 \<le> spec_N (kept_chains sim_two_chains 0)"
    by code_simp
  have h3: "distinct [1, 0 :: nat]"
    by simp
  have h4: "set [1, 0] = {0..<chains sim_two_chains}"
    by (auto simp: sim_two_chains_def)
  have e1: "kept_chains (permute_chains [1, 0] sim_two_chains) 0 = [[5, 3, 4], [1, 2, 4]]"
    by code_simp
  have e2: "kept_chains sim_two_chains 0 = [[1, 2, 4], [5, 3, 4]]"
    by code_simp
  have e3: "effective_sample_size sim_two_chains 0 = Inr (54 / 31)"
    by code_simp
  show ?thesis
    using h1 h2 h3 h4 e1 e2 e3 ess_chain_order_exact [OF h1 h2 h3 h4] by blast
qed

subsection \<open>The snapshot is only read\<close>

lemma frame_refl: "frame r h h"
  by (simp add: frame_def)

lemma frame_trans: "frame r h h1 \<Longrightarrow> frame r h1 h2 \<Longrightarrow> frame r h h2"
  by (auto simp: frame_def)

lemma frame_heap_ok: "heap_ok h r \<Longrightarrow> frame r h h' \<Longrightarrow> heap_ok h' r"
  by (auto simp: frame_def heap_ok_def list_all_iff)

lemma frame_snapshot:
  assumes "frame r h h'"
  shows "snapshot_of h' r = snapshot_of h r"
proof -
  have "deref h' a = deref h a" if "a \<in> set (draw_addrs r)" for a
    using assms that by (simp add: frame_def deref_def)
  then have "map (map (\<lambda>(name, a). (name, deref h' a))) (ref_samples r)
      = map (map (\<lambda>(name, a). (name, deref h a))) (ref_samples r)"
    by (force simp: draw_addrs_def)
  then show ?thesis
    by (simp add: snapshot_of_def)
qed

lemma frame_store:
  assumes "out \<notin> set (draw_addrs r)"
  shows "frame r h (store out v h)"
  using assms by (auto simp: frame_def store_def)

lemma frame_alloc:
  assumes "heap_ok h r" and "alloc h = (a, h1)"
  shows "frame r h h1" and "a \<notin> set (draw_addrs r)" and "a < next_free h1"
  using assms by (auto simp: frame_def alloc_def heap_ok_def list_all_iff)

lemma get_kept_samples_h_frame:
  assumes "out \<notin> set (draw_addrs r)"
  shows "frame r h (snd (get_kept_samples_h r k n out h))"
  using assms by (auto simp: get_kept_samples_h_def frame_refl frame_store split: sum.splits)

lemma get_kept_samples_h_value:
  "get_kept_samples_h r k n out h = (Inr u, h') \<Longrightarrow>
     get_kept_samples (snapshot_of h r) k n (deref h out) = Inr (deref h' out)"
  by (auto simp: get_kept_samples_h_def store_def deref_def split: sum.splits)

lemma get_kept_samples_h_error:
  "get_kept_samples_h r k n out h = (Inl e, h') \<Longrightarrow>
     get_kept_samples (snapshot_of h r) k n (deref h out) = Inl e"
  by (auto simp: get_kept_samples_h_def split: sum.splits)

lemma get_kept_samples_out: "get_kept_samples sim k n out = get_kept_samples sim k n out'"
  by (simp add: get_kept_samples_def)

lemma get_kept_samples_h_sound:
  assumes "out \<notin> set (draw_addrs r)"
  shows "frame r h (snd (get_kept_samples_h r k n out h))"
    and "fst (get_kept_samples_h r k n out h)
      = ebind (get_kept_samples (snapshot_of h r) k n out') (\<lambda>_. Inr ())"
    and "get_kept_samples_h r k n out h = (Inr u, h') \<Longrightarrow>
      get_kept_samples (snapshot_of h r) k n out' = Inr (deref h' out)"
proof -
  show "frame r h (snd (get_kept_samples_h r k n out h))"
    using assms by (rule get_kept_samples_h_frame)
  show "fst (get_kept_samples_h r k n out h)
      = ebind (get_kept_samples (snapshot_of h r) k n out') (\<lambda>_. Inr ())"
    using get_kept_samples_out [of "snapshot_of h r" k n "deref h out" out']
    by (simp add: get_kept_samples_h_def split: sum.splits)
  show "get_kept_samples (snapshot_of h r) k n out' = Inr (deref h' out)"
    if "get_kept_samples_h r k n out h = (Inr u, h')"
    using get_kept_samples_h_value [OF that]
      get_kept_samples_out [of "snapshot_of h r" k n "deref h out" out'] by simp
qed

lemma autocovariance_h_sound:
  assumes ok: "heap_ok h r"
  shows "frame r h (snd (autocovariance_h r k n h))"
    and "fst (autocovariance_h r k n h) = autocovariance (snapshot_of h r) k n"
proof -
  obtain a h1 where al: "alloc h = (a, h1)"
    by (cases "alloc h")
  note f1 = frame_alloc [OF ok al]
  have s1: "snapshot_of h1 r = snapshot_of h r"
    using f1(1) by (rule frame_snapshot)
  obtain res h2 where g: "get_kept_samples_h r k n a h1 = (res, h2)"
    by (cases "get_kept_samples_h r k n a h1")
  have f2: "frame r h1 h2"
    using get_kept_samples_h_sound(1) [OF f1(2), where h = h1 and k = k and n = n] g by simp
  have eq: "autocovariance_h r k n h
      = (case res of Inl e \<Rightarrow> (Inl e, h2)
         | Inr u \<Rightarrow> (Inr (stan_autocovariance (deref h2 a)), h2))"
    by (simp add: autocovariance_h_def al hbind_def g split: sum.splits)
  show "frame r h (snd (autocovariance_h r k n h))"
    unfolding eq using frame_trans [OF f1(1) f2] by (cases res) simp_all
  show "fst (autocovariance_h r k n h) = autocovariance (snapshot_of h r) k n"
  proof (cases res)
    case (Inl e)
    then have "get_kept_samples (snapshot_of h r) k n [] = Inl e"
      using get_kept_samples_h_sound(2) [OF f1(2), where h = h1 and k = k and n = n
          and out' = "[]"] g s1
      by (cases "get_kept_samples (snapshot_of h r) k n []") simp_all
    then show ?thesis
      unfolding eq using Inl by (simp add: autocovariance_def)
  next
    case (Inr u)
    then have "get_kept_samples (snapshot_of h r) k n [] = Inr (deref h2 a)"
      using get_kept_samples_h_sound(3) [OF f1(2), where h = h1 and k = k and n = n
          and out' = "[]" and u = u and h' = h2] g s1 by simp
    then show ?thesis
      unfolding eq using Inr by (simp add: autocovariance_def)
  qed
qed

lemma acov_loop_h_sound:
  assumes "heap_ok h r"
  shows "frame r h (snd (acov_loop_h r n cs acov h))
    \<and> fst (acov_loop_h r n cs acov h) = acov_loop (snapshot_of h r) n cs acov"
  using assms
proof (induction cs arbitrary: acov h)
  case Nil
  then show ?case by (simp add: frame_refl)
next
  case (Cons c cs)
  obtain res h1 where a: "autocovariance_h r c n h = (res, h1)"
    by (cases "autocovariance_h r c n h")
  have f1: "frame r h h1" and v1: "autocovariance (snapshot_of h r) c n = res"
    using autocovariance_h_sound [OF Cons.prems, of c n] unfolding a by simp_all
  show ?case
  proof (cases res)
    case (Inl e)
    then show ?thesis
      using f1 v1 by (simp add: hbind_def a)
  next
    case (Inr ac)
    have ok1: "heap_ok h1 r"
      using Cons.prems f1 by (rule frame_heap_ok)
    have s1: "snapshot_of h1 r = snapshot_of h r"
      using f1 by (rule frame_snapshot)
    show ?thesis
      using Cons.IH [OF ok1, of "acov @ [ac]"] f1 v1 Inr s1
      by (auto simp: hbind_def a intro: frame_trans)
  qed
qed

lemma ess_variances_h_sound:
  assumes "heap_ok h r"
  shows "frame r h (snd (ess_variances_h r n h))
    \<and> fst (ess_variances_h r n h) = ess_variances (snapshot_of h r) n"
proof (cases "read_counts (snapshot_of h r)")
  case (Inl e)
  then show ?thesis
    by (simp add: ess_variances_h_def ess_variances_def frame_refl)
next
  case (Inr c)
  obtain m ns_kept N where c: "c = (m, ns_kept, N)"
    by (cases c)
  obtain res h1 where a: "acov_loop_h r n [0..<m] [] h = (res, h1)"
    by (cases "acov_loop_h r n [0..<m] [] h")
  have f1: "frame r h h1" and v1: "acov_loop (snapshot_of h r) n [0..<m] [] = res"
    using acov_loop_h_sound [OF assms, of n "[0..<m]" "[]"] unfolding a by simp_all
  have s1: "snapshot_of h1 r = snapshot_of h r"
    using f1 by (rule frame_snapshot)
  show ?thesis
    using f1 v1 s1 Inr c
    by (cases res) (simp_all add: ess_variances_h_def ess_variances_def hbind_def a)
qed

lemma effective_sample_size_h_sound:
  assumes "heap_ok h r"
  shows "frame r h (snd (effective_sample_size_h r n h))
    \<and> fst (effective_sample_size_h r n h) = effective_sample_size (snapshot_of h r) n"
proof -
  obtain res h1 where a: "ess_variances_h r n h = (res, h1)"
    by (cases "ess_variances_h r n h")
  have f1: "frame r h h1" and v1: "ess_variances (snapshot_of h r) n = res"
    using ess_variances_h_sound [OF assms, of n] unfolding a by simp_all
  show ?thesis
    using f1
    by (cases res) (auto simp: effective_sample_size_h_def effective_sample_size_def hbind_def a v1)
qed

lemma split_step_h_sound:
  assumes "a \<notin> set (draw_addrs r)"
  shows "frame r h (snd (split_step_h r n n_samples a chain st h))
    \<and> fst (split_step_h r n n_samples a chain st h)
        = split_step (snapshot_of h r) n n_samples chain st"
proof -
  obtain res h1 where g: "get_kept_samples_h r chain n a h = (res, h1)"
    by (cases "get_kept_samples_h r chain n a h")
  have f1: "frame r h h1"
    using get_kept_samples_h_sound(1) [OF assms, where h = h and k = chain and n = n] g by simp
  show ?thesis
  proof (cases res)
    case (Inl e)
    then have "get_kept_samples (snapshot_of h r) chain n (samples_vec st) = Inl e"
      using get_kept_samples_h_sound(2) [OF assms, where h = h and k = chain and n = n
          and out' = "samples_vec st"] g
      by (cases "get_kept_samples (snapshot_of h r) chain n (samples_vec st)") simp_all
    then show ?thesis
      using f1 Inl by (simp add: split_step_h_def split_step_def hbind_def g)
  next
    case (Inr u)
    then have "get_kept_samples (snapshot_of h r) chain n (samples_vec st) = Inr (deref h1 a)"
      using get_kept_samples_h_sound(3) [OF assms, where h = h and k = chain and n = n
          and out' = "samples_vec st" and u = u and h' = h1] g by simp
    then show ?thesis
      using f1 Inr by (simp add: split_step_h_def split_step_def hbind_def g)
  qed
qed

lemma split_loop_h_sound:
  assumes "a \<notin> set (draw_addrs r)"
  shows "frame r h (snd (split_loop_h r n n_samples a cs st h))
    \<and> fst (split_loop_h r n n_samples a cs st h)
        = split_loop (snapshot_of h r) n n_samples cs st"
proof (induction cs arbitrary: st h)
  case Nil
  show ?case by (simp add: frame_refl)
next
  case (Cons c cs)
  obtain res h1 where g: "split_step_h r n n_samples a c st h = (res, h1)"
    by (cases "split_step_h r n n_samples a c st h")
  have f1: "frame r h h1" and v1: "split_step (snapshot_of h r) n n_samples c st = res"
    using split_step_h_sound [OF assms, where h = h and n = n and n_samples = n_samples
        and chain = c and st = st] unfolding g by simp_all
  have s1: "snapshot_of h1 r = snapshot_of h r"
    using f1 by (rule frame_snapshot)
  show ?case
  proof (cases res)
    case (Inl e)
    then show ?thesis
      using f1 v1 by (simp add: hbind_def g)
  next
    case (Inr st')
    show ?thesis
      using Cons.IH [of h1 st'] f1 v1 Inr s1
      by (auto simp: hbind_def g intro: frame_trans)
  qed
qed

lemma split_variances_h_sound:
  assumes ok: "heap_ok h r"
  shows "frame r h (snd (split_variances_h r n h))
    \<and> fst (split_variances_h r n h) = split_variances (snapshot_of h r) n"
proof (cases "read_counts (snapshot_of h r)")
  case (Inl e)
  then show ?thesis
    by (simp add: split_variances_h_def split_variances_def frame_refl)
next
  case (Inr c)
  obtain m ns_kept N where c: "c = (m, ns_kept, N)"
    by (cases c)
  obtain a h0 where al: "alloc h = (a, h0)"
    by (cases "alloc h")
  note f0 = frame_alloc [OF ok al]
  have s0: "snapshot_of h0 r = snapshot_of h r"
    using f0(1) by (rule frame_snapshot)
  let ?N = "split_n_samples N"
  obtain res h1 where g: "split_loop_h r n ?N a [0..<m] split_state_init h0 = (res, h1)"
    by (cases "split_loop_h r n ?N a [0..<m] split_state_init h0")
  have f1: "frame r h0 h1"
    and v1: "split_loop (snapshot_of h0 r) n ?N [0..<m] split_state_init = res"
    using split_loop_h_sound [OF f0(2), where h = h0 and n = n and n_samples = ?N
        and cs = "[0..<m]" and st = split_state_init] unfolding g by simp_all
  show ?thesis
    using frame_trans [OF f0(1) f1] v1 Inr c unfolding s0
    by (cases res)
      (simp_all add: split_variances_h_def split_variances_def hbind_def al g Let_def)
qed

lemma split_potential_scale_reduction_h_sound:
  assumes "heap_ok h r"
  shows "frame r h (snd (split_potential_scale_reduction_h r n h))
    \<and> fst (split_potential_scale_reduction_h r n h)
        = split_potential_scale_reduction (snapshot_of h r) n"
proof -
  obtain res h1 where a: "split_variances_h r n h = (res, h1)"
    by (cases "split_variances_h r n h")
  have f1: "frame r h h1" and v1: "split_variances (snapshot_of h r) n = res"
    using split_variances_h_sound [OF assms, of n] unfolding a by simp_all
  show ?thesis
    using f1
    by (cases res)
      (auto simp: split_potential_scale_reduction_h_def split_potential_scale_reduction_def
        split_ratio_def hbind_def a v1)
qed

text \<open>
  Claim C9. Let the draw sequences of the snapshot lie at addresses in use. After a call of
  \<open>effective_sample_size\<close> or of \<open>split_potential_scale_reduction\<close>, whether it returns or
  raises, the snapshot has the content it had before, and the call gives what the function
  gives on that content. \<open>get_kept_samples\<close>, called with a vector that is not one of the
  draw sequences, leaves the snapshot unchanged too, and so does any later write to that
  vector: the kept samples are a copy.
\<close>

theorem snapshot_not_mutated:
  assumes "heap_ok h r"
  shows "snapshot_of (snd (effective_sample_size_h r n h)) r = snapshot_of h r
    \<and> fst (effective_sample_size_h r n h) = effective_sample_size (snapshot_of h r) n
    \<and> snapshot_of (snd (split_potential_scale_reduction_h r n h)) r = snapshot_of h r
    \<and> fst (split_potential_scale_reduction_h r n h)
        = split_potential_scale_reduction (snapshot_of h r) n
    \<and> (out \<notin> set (draw_addrs r) \<longrightarrow>
         snapshot_of (snd (get_kept_samples_h r k n out h)) r = snapshot_of h r
         \<and> (\<forall>v. snapshot_of (store out v (snd (get_kept_samples_h r k n out h))) r
                = snapshot_of h r))"
proof -
  have "snapshot_of (store out v (snd (get_kept_samples_h r k n out h))) r = snapshot_of h r"
    if out: "out \<notin> set (draw_addrs r)" for v
  proof -
    have "frame r h (store out v (snd (get_kept_samples_h r k n out h)))"
      using get_kept_samples_h_frame [OF out] frame_store [OF out] by (rule frame_trans)
    then show ?thesis
      by (rule frame_snapshot)
  qed
  then show ?thesis
    using effective_sample_size_h_sound [OF assms, of n]
      split_potential_scale_reduction_h_sound [OF assms, of n]
      get_kept_samples_h_frame [of out r h k n]
    by (auto dest: frame_snapshot)
qed

theorem snapshot_not_mutated_witness:
  "heap_ok heap_two_chains refs_two_chains
   \<and> 2 \<notin> set (draw_addrs refs_two_chains)
   \<and> snapshot_of (snd (effective_sample_size_h refs_two_chains 0 heap_two_chains))
        refs_two_chains = snapshot_of heap_two_chains refs_two_chains
   \<and> fst (effective_sample_size_h refs_two_chains 0 heap_two_chains) = Inr (54 / 31)
   \<and> snapshot_of (snd (split_potential_scale_reduction_h refs_two_chains 0 heap_two_chains))
        refs_two_chains = snapshot_of heap_two_chains refs_two_chains
   \<and> deref (snd (get_kept_samples_h refs_two_chains 1 0 2 heap_two_chains)) 2 = [5, 3, 4]
   \<and> snapshot_of (store 2 [] (snd (get_kept_samples_h refs_two_chains 1 0 2 heap_two_chains)))
        refs_two_chains = snapshot_of heap_two_chains refs_two_chains"
proof -
  have h1: "heap_ok heap_two_chains refs_two_chains"
    by code_simp
  have h2: "2 \<notin> set (draw_addrs refs_two_chains)"
    by code_simp
  have e1: "effective_sample_size (snapshot_of heap_two_chains refs_two_chains) 0 = Inr (54 / 31)"
    by code_simp
  have e2: "deref (snd (get_kept_samples_h refs_two_chains 1 0 2 heap_two_chains)) 2 = [5, 3, 4]"
    by code_simp
  show ?thesis
    using h1 h2 e2
      snapshot_not_mutated [OF h1, where n = 0 and out = 2 and k = 1] unfolding e1
    by blast
qed

subsection \<open>The argument of the square root\<close>

lemma variance_nonneg:
  assumes "variance xs = Inr v"
  shows "0 \<le> v"
proof (cases "2 \<le> length xs")
  case True
  then have "v = spec_sample_variance xs"
    using assms variance_spec [OF True] by simp
  then show ?thesis
    using spec_sample_variance_nonneg [OF True] by simp
next
  case False
  then show ?thesis
    using assms by (auto simp: variance_def Let_def split: if_splits)
qed

lemma split_halves_var_nonneg:
  assumes "split_halves n_samples smp st = Inr st'"
    and "\<forall>v\<in>set (split_chain_var st). 0 \<le> v"
  shows "\<forall>v\<in>set (split_chain_var st'). 0 \<le> v"
  using assms by (auto simp: split_halves_def ebind_eq_Inr dest: variance_nonneg)

lemma split_loop_var_nonneg:
  assumes "split_loop sim n n_samples cs st = Inr st'"
    and "\<forall>v\<in>set (split_chain_var st). 0 \<le> v"
  shows "\<forall>v\<in>set (split_chain_var st'). 0 \<le> v"
  using assms
proof (induction cs arbitrary: st)
  case Nil
  then show ?case by simp
next
  case (Cons c cs)
  from Cons.prems(1) obtain smp st1 where
    h: "split_halves n_samples smp st = Inr st1"
    and l: "split_loop sim n n_samples cs st1 = Inr st'"
    by (auto simp: split_step_def ebind_eq_Inr)
  show ?case
    using Cons.IH [OF l] split_halves_var_nonneg [OF h Cons.prems(2)] by simp
qed

lemma split_ratio_of_nonneg:
  assumes "split_ratio_of n_samples var_between var_within = Inr x"
    and "0 \<le> var_between" and "0 \<le> var_within"
  shows "0 \<le> x"
proof -
  from assms(1) obtain q where q: "cdiv var_between var_within = Inr q"
    and x: "cdiv (q + real (n_samples div 2) - 1) (real (n_samples div 2)) = Inr x"
    by (auto simp: split_ratio_of_def ebind_eq_Inr)
  have "0 \<le> q"
    using q assms(2,3) by (auto simp: cdiv_def split: if_splits)
  moreover have "1 \<le> real (n_samples div 2)"
    and "x = (q + real (n_samples div 2) - 1) / real (n_samples div 2)"
    using x by (auto simp: cdiv_def split: if_splits)
  ultimately show ?thesis
    by simp
qed

lemma pool_halves_Inr:
  assumes "pool_halves n_samples st = Inr (N, vb, vw)"
  shows "N = n_samples"
    and "\<exists>v0. variance (split_chain_mean st) = Inr v0 \<and> vb = real (n_samples div 2) * v0"
    and "mean (split_chain_var st) = Inr vw"
proof -
  from assms obtain v0 where v0: "variance (split_chain_mean st) = Inr v0"
    and r: "ebind (mean (split_chain_var st))
        (\<lambda>var_within. Inr (n_samples, real (n_samples div 2) * v0, var_within))
      = Inr (N, vb, vw)"
    unfolding pool_halves_def ebind_eq_Inr by blast
  from r obtain w where w: "mean (split_chain_var st) = Inr w"
    and e: "(n_samples, real (n_samples div 2) * v0, w) = (N, vb, vw)"
    unfolding ebind_eq_Inr by auto
  show "N = n_samples" using e by simp
  show "\<exists>v0. variance (split_chain_mean st) = Inr v0 \<and> vb = real (n_samples div 2) * v0"
    using v0 e by auto
  show "mean (split_chain_var st) = Inr vw" using w e by simp
qed

lemma split_variances_Inr:
  assumes "split_variances sim n = Inr (N, vb, vw)"
  shows "\<exists>m st. split_loop sim n N [0..<m] split_state_init = Inr st
    \<and> pool_halves N st = Inr (N, vb, vw)"
proof -
  from assms obtain c where c: "read_counts sim = Inr c"
    and r: "(case c of (n_chains, ns_kept, n_samples0) \<Rightarrow>
        let n_samples = split_n_samples n_samples0
        in ebind (split_loop sim n n_samples [0..<n_chains] split_state_init)
             (\<lambda>st. pool_halves n_samples st)) = Inr (N, vb, vw)"
    unfolding split_variances_def ebind_eq_Inr by blast
  obtain m ns N0 where c': "c = (m, ns, N0)"
    by (cases c)
  from r obtain st where
    l: "split_loop sim n (split_n_samples N0) [0..<m] split_state_init = Inr st"
    and p: "pool_halves (split_n_samples N0) st = Inr (N, vb, vw)"
    unfolding c' prod.case Let_def ebind_eq_Inr by blast
  have "N = split_n_samples N0"
    using p by (rule pool_halves_Inr(1))
  then show ?thesis
    using l p by blast
qed

lemma split_ratio_nonneg:
  assumes "split_ratio sim n = Inr x"
  shows "0 \<le> x"
proof -
  from assms obtain c where c: "split_variances sim n = Inr c"
    and r: "(case c of (n_samples, var_between, var_within) \<Rightarrow>
        split_ratio_of n_samples var_between var_within) = Inr x"
    unfolding split_ratio_def ebind_eq_Inr by blast
  obtain N vb vw where c': "c = (N, vb, vw)"
    by (cases c)
  have x: "split_ratio_of N vb vw = Inr x"
    using r unfolding c' by simp
  from split_variances_Inr [OF c [unfolded c']] obtain m st where
    l: "split_loop sim n N [0..<m] split_state_init = Inr st"
    and p: "pool_halves N st = Inr (N, vb, vw)"
    by blast
  from pool_halves_Inr(2) [OF p] obtain v0 where
    v0: "variance (split_chain_mean st) = Inr v0" and vb: "vb = real (N div 2) * v0"
    by blast
  have vw: "mean (split_chain_var st) = Inr vw"
    using p by (rule pool_halves_Inr(3))
  have nn: "\<forall>v\<in>set (split_chain_var st). 0 \<le> v"
    using split_loop_var_nonneg [OF l] by (simp add: split_state_init_def)
  have b: "0 \<le> vb"
    using vb variance_nonneg [OF v0] by simp
  have "0 \<le> sum_list (split_chain_var st)"
    using nn by (intro sum_list_nonneg) auto
  then have w: "0 \<le> vw"
    using vw by (auto simp: mean_def split: if_splits)
  show ?thesis
    using x b w by (rule split_ratio_of_nonneg)
qed

end
